theory Spec2Isabelle
  imports Complex_Main
begin

section \<open>Hidden Markov Model tagger: shallow embedding\<close>

text \<open>
  The development follows the notebook \<^verbatim>\<open>Hidden_Markov_Model.ipynb\<close>: the class
  \<^verbatim>\<open>HMM\<close> (constructor, \<^verbatim>\<open>data2i\<close>, \<^verbatim>\<open>train\<close>, the three decoders and
  \<^verbatim>\<open>extract_output\<close>), the function \<^verbatim>\<open>get_perplexity\<close> and the hard-EM
  \<^verbatim>\<open>while\<close> loop.
\<close>

subsection \<open>Exceptions and floating-point values\<close>

text \<open>The Python exceptions that the modelled code can raise.\<close>

datatype error = IndexError | KeyError | ValueError | ZeroDivisionError

text \<open>
  A NumPy \<^verbatim>\<open>float64\<close> is idealised: a finite value is an exact real number (no
  rounding, no overflow), and the three special values are kept, so that
  \<^verbatim>\<open>-float("inf")\<close>, \<^verbatim>\<open>float("inf")\<close>, \<^verbatim>\<open>log2(0)\<close> and
  \<^verbatim>\<open>inf - inf\<close> have the value the program gives them.
\<close>

datatype pyfloat = Fin real | PInf | NInf | NaN

fun fadd :: "pyfloat \<Rightarrow> pyfloat \<Rightarrow> pyfloat" where
  "fadd (Fin a) (Fin b) = Fin (a + b)"
| "fadd NaN _ = NaN"
| "fadd _ NaN = NaN"
| "fadd PInf NInf = NaN"
| "fadd NInf PInf = NaN"
| "fadd PInf _ = PInf"
| "fadd _ PInf = PInf"
| "fadd NInf _ = NInf"
| "fadd _ NInf = NInf"

fun fneg :: "pyfloat \<Rightarrow> pyfloat" where
  "fneg (Fin a) = Fin (- a)"
| "fneg PInf = NInf"
| "fneg NInf = PInf"
| "fneg NaN = NaN"

definition fsub :: "pyfloat \<Rightarrow> pyfloat \<Rightarrow> pyfloat" where
  "fsub a b = fadd a (fneg b)"

text \<open>Multiplication of a float by a finite scalar, as in \<^verbatim>\<open>(-1/len(data))*sum_prob\<close>.\<close>

fun fscale :: "real \<Rightarrow> pyfloat \<Rightarrow> pyfloat" where
  "fscale c (Fin a) = Fin (c * a)"
| "fscale c NaN = NaN"
| "fscale c PInf = (if c = 0 then NaN else if 0 < c then PInf else NInf)"
| "fscale c NInf = (if c = 0 then NaN else if 0 < c then NInf else PInf)"

text \<open>
  NumPy division \<^verbatim>\<open>a / b\<close> of a float by a finite number: dividing by zero does not
  raise, it gives an infinity or NaN.
\<close>

fun fdiv :: "pyfloat \<Rightarrow> real \<Rightarrow> pyfloat" where
  "fdiv (Fin a) b =
     (if b \<noteq> 0 then Fin (a / b)
      else if 0 < a then PInf else if a < 0 then NInf else NaN)"
| "fdiv NaN b = NaN"
| "fdiv PInf b = (if 0 \<le> b then PInf else NInf)"
| "fdiv NInf b = (if 0 \<le> b then NInf else PInf)"

text \<open>Division of two arrays' entries, \<^verbatim>\<open>row / np.sum(row)\<close>.\<close>

fun fdivf :: "pyfloat \<Rightarrow> pyfloat \<Rightarrow> pyfloat" where
  "fdivf a (Fin b) = fdiv a b"
| "fdivf a NaN = NaN"
| "fdivf (Fin a) _ = Fin 0"
| "fdivf _ _ = NaN"

fun flog2 :: "pyfloat \<Rightarrow> pyfloat" where
  "flog2 (Fin a) = (if 0 < a then Fin (log 2 a) else if a = 0 then NInf else NaN)"
| "flog2 PInf = PInf"
| "flog2 NInf = NaN"
| "flog2 NaN = NaN"

text \<open>\<^verbatim>\<open>2 ** x\<close>.\<close>

fun fpow2 :: "pyfloat \<Rightarrow> pyfloat" where
  "fpow2 (Fin a) = Fin (2 powr a)"
| "fpow2 PInf = PInf"
| "fpow2 NInf = Fin 0"
| "fpow2 NaN = NaN"

text \<open>The comparison \<^verbatim>\<open>a > b\<close>; every comparison with NaN is false.\<close>

fun fgt :: "pyfloat \<Rightarrow> pyfloat \<Rightarrow> bool" where
  "fgt (Fin a) (Fin b) = (b < a)"
| "fgt NaN _ = False"
| "fgt _ NaN = False"
| "fgt PInf PInf = False"
| "fgt PInf _ = True"
| "fgt _ PInf = False"
| "fgt NInf _ = False"
| "fgt _ NInf = True"

fun is_nan :: "pyfloat \<Rightarrow> bool" where
  "is_nan NaN = True"
| "is_nan _ = False"

text \<open>
  \<^verbatim>\<open>np.argmax\<close> on a one-dimensional array: the first index of the maximum, and the
  first NaN when there is one. The scan keeps the best index so far and replaces it only by
  a strictly greater entry (or by the first NaN), so the lowest index wins on ties. An empty
  array raises \<^verbatim>\<open>ValueError\<close>.
\<close>

fun argmax_scan :: "pyfloat list \<Rightarrow> nat \<Rightarrow> nat \<Rightarrow> pyfloat \<Rightarrow> nat" where
  "argmax_scan [] i b bv = b"
| "argmax_scan (x # xs) i b bv =
     (if is_nan bv then b
      else if is_nan x \<or> fgt x bv then argmax_scan xs (Suc i) i x
      else argmax_scan xs (Suc i) b bv)"

definition np_argmax :: "pyfloat list \<Rightarrow> error + nat" where
  "np_argmax xs = (case xs of [] \<Rightarrow> Inl ValueError | x # ys \<Rightarrow> Inr (argmax_scan ys 1 0 x))"

text \<open>\<^verbatim>\<open>np.max\<close>: the entry at the position \<^verbatim>\<open>np.argmax\<close> finds.\<close>

definition np_max :: "pyfloat list \<Rightarrow> error + pyfloat" where
  "np_max xs = (case np_argmax xs of Inl e \<Rightarrow> Inl e | Inr i \<Rightarrow> Inr (xs ! i))"

text \<open>\<^verbatim>\<open>np.sum\<close> of a one-dimensional array.\<close>

definition np_sum :: "pyfloat list \<Rightarrow> pyfloat" where
  "np_sum xs = fold (\<lambda>x acc. fadd acc x) xs (Fin 0)"

subsection \<open>The class HMM: registry and tables\<close>

definition UNK :: string where
  "UNK = ''<UNK>''"

text \<open>
  The fields of an \<^verbatim>\<open>HMM\<close> object. \<^verbatim>\<open>emissions\<close> already holds the appended
  sentinel. The constructor computes \<^verbatim>\<open>w2i\<close>, \<^verbatim>\<open>i2w\<close>, \<^verbatim>\<open>s2i\<close> and
  \<^verbatim>\<open>i2s\<close> from these two lists and nothing assigns them afterwards, so they are
  functions of the object here. \<^verbatim>\<open>init_prob\<close> has shape \<open>1 \<times> S\<close>; a table is the
  list of its rows.
\<close>

record hmm =
  emissions :: "string list"
  states :: "string list"
  init_prob :: "pyfloat list list"
  emission_prob :: "pyfloat list list"
  transition_prob :: "pyfloat list list"

text \<open>
  \<^verbatim>\<open>{w:i for i, w in enumerate(xs)}\<close>: the entries are stored in order, a later
  occurrence of a key overwrites an earlier one.
\<close>

definition enumerate_dict :: "'a list \<Rightarrow> ('a \<rightharpoonup> nat)" where
  "enumerate_dict xs = fold (\<lambda>(i, w) m. m(w \<mapsto> i)) (List.enumerate 0 xs) Map.empty"

definition w2i :: "hmm \<Rightarrow> (string \<rightharpoonup> nat)" where
  "w2i h = enumerate_dict (emissions h)"

definition i2w :: "hmm \<Rightarrow> string list" where
  "i2w h = emissions h"

definition s2i :: "hmm \<Rightarrow> (string \<rightharpoonup> nat)" where
  "s2i h = enumerate_dict (states h)"

definition i2s :: "hmm \<Rightarrow> string list" where
  "i2s h = states h"

text \<open>\<^verbatim>\<open>np.zeros((r, c))\<close>.\<close>

definition np_zeros :: "nat \<Rightarrow> nat \<Rightarrow> pyfloat list list" where
  "np_zeros r c = replicate r (replicate c (Fin 0))"

definition HMM_init :: "string list \<Rightarrow> string list \<Rightarrow> hmm" where
  "HMM_init emissions0 states0 =
     (let em = emissions0 @ [UNK];
          size_of_state_set = length states0;
          size_of_vocabulary = length em
      in \<lparr> emissions = em, states = states0,
           init_prob = np_zeros 1 size_of_state_set,
           emission_prob = np_zeros size_of_state_set size_of_vocabulary,
           transition_prob = np_zeros size_of_state_set size_of_state_set \<rparr>)"

subsection \<open>Encoding: data2i\<close>

text \<open>A dictionary lookup \<^verbatim>\<open>d[k]\<close> raises \<^verbatim>\<open>KeyError\<close> on a missing key.\<close>

definition dict_get :: "('k \<rightharpoonup> 'v) \<Rightarrow> 'k \<Rightarrow> error + 'v" where
  "dict_get d k = (case d k of None \<Rightarrow> Inl KeyError | Some v \<Rightarrow> Inr v)"

text \<open>A loop that appends one result per element and stops at the first exception.\<close>

fun map_err :: "('a \<Rightarrow> error + 'b) \<Rightarrow> 'a list \<Rightarrow> error + 'b list" where
  "map_err f [] = Inr []"
| "map_err f (x # xs) =
     (case f x of Inl e \<Rightarrow> Inl e
      | Inr y \<Rightarrow> (case map_err f xs of Inl e \<Rightarrow> Inl e | Inr ys \<Rightarrow> Inr (y # ys)))"

text \<open>\<^verbatim>\<open>w = w if w in self.w2i else UNK; self.w2i[w]\<close>.\<close>

definition encode_word :: "hmm \<Rightarrow> string \<Rightarrow> error + nat" where
  "encode_word h w = dict_get (w2i h) (if w \<in> dom (w2i h) then w else UNK)"

definition encode_pair :: "hmm \<Rightarrow> string \<times> string \<Rightarrow> error + (nat \<times> nat)" where
  "encode_pair h p =
     (case encode_word h (fst p) of Inl e \<Rightarrow> Inl e
      | Inr wi \<Rightarrow> (case dict_get (s2i h) (snd p) of Inl e \<Rightarrow> Inl e | Inr si \<Rightarrow> Inr (wi, si)))"

text \<open>
  \<^verbatim>\<open>data2i\<close> tests \<^verbatim>\<open>type(data[0][0])\<close>, which raises \<^verbatim>\<open>IndexError\<close> when
  \<^verbatim>\<open>data\<close> or its first sentence is empty, and then takes the branch for word
  sequences or the one for sequences of word-state pairs. The two branches are two
  functions here, chosen by the type of the argument.
\<close>

definition first_first :: "'a list list \<Rightarrow> error + 'a" where
  "first_first data =
     (case data of [] \<Rightarrow> Inl IndexError
      | ex # _ \<Rightarrow> (case ex of [] \<Rightarrow> Inl IndexError | x # _ \<Rightarrow> Inr x))"

definition data2i_words :: "hmm \<Rightarrow> string list list \<Rightarrow> error + nat list list" where
  "data2i_words h data =
     (case first_first data of Inl e \<Rightarrow> Inl e
      | Inr _ \<Rightarrow> map_err (map_err (encode_word h)) data)"

definition data2i_pairs :: "hmm \<Rightarrow> (string \<times> string) list list \<Rightarrow> error + (nat \<times> nat) list list" where
  "data2i_pairs h data =
     (case first_first data of Inl e \<Rightarrow> Inl e
      | Inr _ \<Rightarrow> map_err (map_err (encode_pair h)) data)"

text \<open>
  An index into a Python list or an axis of a NumPy array of size \<open>n\<close>: a negative index
  counts from the end, and an index outside \<open>-n, \<dots>, n-1\<close> raises.
\<close>

definition np_index :: "nat \<Rightarrow> int \<Rightarrow> error + nat" where
  "np_index n i =
     (if 0 \<le> i \<and> i < int n then Inr (nat i)
      else if - int n \<le> i \<and> i < 0 then Inr (nat (int n + i))
      else Inl IndexError)"

text \<open>Decoding an id, \<^verbatim>\<open>self.i2w[i]\<close>.\<close>

definition list_get :: "'a list \<Rightarrow> int \<Rightarrow> error + 'a" where
  "list_get xs i = (case np_index (length xs) i of Inl e \<Rightarrow> Inl e | Inr j \<Rightarrow> Inr (xs ! j))"

subsection \<open>Supervised training: train\<close>

text \<open>\<^verbatim>\<open>a[:] = 0\<close>: every cell is overwritten, the shape stays.\<close>

definition zero_fill :: "pyfloat list list \<Rightarrow> pyfloat list list" where
  "zero_fill a = map (map (\<lambda>_. Fin 0)) a"

text \<open>
  \<^verbatim>\<open>a[r][c] += 1\<close>. The indices that \<^verbatim>\<open>train\<close> uses come out of \<^verbatim>\<open>data2i\<close>,
  so they lie inside the tables the constructor allocated (lemmas \<open>encode_word_bound\<close>
  and \<open>encode_pair_bound\<close> below).
\<close>

definition incr :: "pyfloat list list \<Rightarrow> nat \<Rightarrow> nat \<Rightarrow> pyfloat list list" where
  "incr a r c = a[r := (a ! r)[c := fadd (a ! r ! c) (Fin 1)]]"

text \<open>
  The body of the inner loop of \<^verbatim>\<open>train\<close> for one \<^verbatim>\<open>(word, state)\<close> pair. The
  loop state is \<^verbatim>\<open>flag\<close> and the three count tables. The two \<^verbatim>\<open>if\<close> statements
  run one after the other, the second one on the flag the first one may have set.
\<close>

type_synonym counts = "int \<times> pyfloat list list \<times> pyfloat list list \<times> pyfloat list list"

fun count_pair :: "nat \<times> nat \<Rightarrow> counts \<Rightarrow> counts" where
  "count_pair (word, state) (flag, ip, ep, tp) =
     (let ep1 = incr ep state word;
          (flag1, tp1) = (if flag \<noteq> - 1 then (int state, incr tp (nat flag) state)
                          else (flag, tp));
          (flag2, ip1) = (if flag1 = - 1 then (int state, incr ip 0 state)
                          else (flag1, ip))
      in (flag2, ip1, ep1, tp1))"

text \<open>One sentence: \<^verbatim>\<open>flag = -1\<close>, then the inner loop.\<close>

definition count_sentence ::
  "(nat \<times> nat) list \<Rightarrow> pyfloat list list \<times> pyfloat list list \<times> pyfloat list list
     \<Rightarrow> pyfloat list list \<times> pyfloat list list \<times> pyfloat list list" where
  "count_sentence sentence tabs = snd (fold count_pair sentence (- 1, tabs))"

text \<open>\<^verbatim>\<open>a + 1\<close> on a whole table.\<close>

definition add_one :: "pyfloat list list \<Rightarrow> pyfloat list list" where
  "add_one a = map (map (\<lambda>x. fadd x (Fin 1))) a"

text \<open>\<^verbatim>\<open>np.log2(a / np.sum(a))\<close> on a whole table (the sum of all its cells).\<close>

definition log_normalize_all :: "pyfloat list list \<Rightarrow> pyfloat list list" where
  "log_normalize_all a = (let s = np_sum (concat a) in map (map (\<lambda>x. flog2 (fdivf x s))) a)"

text \<open>\<^verbatim>\<open>np.log2(row / np.sum(row))\<close> on one row.\<close>

definition log_normalize :: "pyfloat list \<Rightarrow> pyfloat list" where
  "log_normalize row = (let s = np_sum row in map (\<lambda>x. flog2 (fdivf x s)) row)"

text \<open>
  \<^verbatim>\<open>train\<close>. The tables are reset first; \<^verbatim>\<open>data2i\<close> runs to its end before the
  first count is stored, so an exception of \<^verbatim>\<open>data2i\<close> is the only one there is. The
  two final loops assign to every row \<open>i\<close> the normalised row \<open>i\<close>.
\<close>

definition train :: "hmm \<Rightarrow> (string \<times> string) list list \<Rightarrow> error + hmm" where
  "train h data =
     (let ip0 = zero_fill (init_prob h);
          ep0 = zero_fill (emission_prob h);
          tp0 = zero_fill (transition_prob h)
      in case data2i_pairs h data of
           Inl e \<Rightarrow> Inl e
         | Inr sentences \<Rightarrow>
             (case fold count_sentence sentences (ip0, ep0, tp0) of
                (ip1, ep1, tp1) \<Rightarrow>
                  Inr (h\<lparr> init_prob := log_normalize_all (add_one ip1),
                          emission_prob := map log_normalize (add_one ep1),
                          transition_prob := map log_normalize (add_one tp1) \<rparr>)))"

subsection \<open>Decoding\<close>

text \<open>A \<^verbatim>\<open>for\<close> loop over a list with a loop state, stopped by the first exception.\<close>

fun fold_err :: "('a \<Rightarrow> 's \<Rightarrow> error + 's) \<Rightarrow> 'a list \<Rightarrow> 's \<Rightarrow> error + 's" where
  "fold_err f [] s = Inr s"
| "fold_err f (x # xs) s = (case f x s of Inl e \<Rightarrow> Inl e | Inr s' \<Rightarrow> fold_err f xs s')"

text \<open>\<^verbatim>\<open>a[:, c]\<close>, a column of a table.\<close>

definition column :: "'a list list \<Rightarrow> nat \<Rightarrow> 'a list" where
  "column a c = map (\<lambda>row. row ! c) a"

text \<open>
  \<^verbatim>\<open>[(self.i2w[w], self.i2s[s]) for w, s in zip(ex, output)]\<close>. The state ids of
  \<^verbatim>\<open>output\<close> are NumPy integers, which may be negative when they are read from the
  back pointers, so they are \<open>int\<close> here.
\<close>

definition tag_pair :: "hmm \<Rightarrow> nat \<times> int \<Rightarrow> error + (string \<times> string)" where
  "tag_pair h p =
     (case list_get (i2w h) (int (fst p)) of Inl e \<Rightarrow> Inl e
      | Inr w \<Rightarrow> (case list_get (i2s h) (snd p) of Inl e \<Rightarrow> Inl e | Inr s \<Rightarrow> Inr (w, s)))"

definition tag_pairs :: "hmm \<Rightarrow> nat list \<Rightarrow> int list \<Rightarrow> error + (string \<times> string) list" where
  "tag_pairs h ex output = map_err (tag_pair h) (zip ex output)"

text \<open>
  The encoded sentence \<^verbatim>\<open>self.data2i([ex])[0]\<close>.
\<close>

definition encode_sentence :: "hmm \<Rightarrow> string list \<Rightarrow> error + nat list" where
  "encode_sentence h ex =
     (case data2i_words h [ex] of Inl e \<Rightarrow> Inl e | Inr idx \<Rightarrow> list_get idx 0)"

text \<open>
  \<^verbatim>\<open>greedy_decode\<close>. The loop state is \<^verbatim>\<open>state_distr\<close> (shape \<open>1 \<times> S\<close>),
  \<^verbatim>\<open>output\<close> and \<^verbatim>\<open>log_prob\<close>. \<^verbatim>\<open>argmax()\<close> and \<^verbatim>\<open>max()\<close> without an
  axis work on the flattened array.
\<close>

definition greedy_step ::
  "hmm \<Rightarrow> nat \<Rightarrow> pyfloat list list \<times> nat list \<times> pyfloat
     \<Rightarrow> error + (pyfloat list list \<times> nat list \<times> pyfloat)" where
  "greedy_step h w st =
     (case st of (state_distr, output, log_prob) \<Rightarrow>
        (let state_distr1 = map (\<lambda>row. map2 fadd row (column (emission_prob h) w)) state_distr
         in case np_argmax (concat state_distr1) of Inl e \<Rightarrow> Inl e
            | Inr s \<Rightarrow>
                (case np_max (concat state_distr1) of Inl e \<Rightarrow> Inl e
                 | Inr log_prob1 \<Rightarrow>
                     Inr ([map (fadd log_prob1) (transition_prob h ! s)],
                          output @ [s], log_prob1))))"

definition greedy_decode :: "hmm \<Rightarrow> string list \<Rightarrow> error + ((string \<times> string) list \<times> pyfloat)" where
  "greedy_decode h ex0 =
     (case encode_sentence h ex0 of Inl e \<Rightarrow> Inl e
      | Inr ex \<Rightarrow>
          (case fold_err (greedy_step h) ex (init_prob h, [], Fin 0) of Inl e \<Rightarrow> Inl e
           | Inr (state_distr, output, log_prob) \<Rightarrow>
               (case tag_pairs h ex (map int output) of Inl e \<Rightarrow> Inl e
                | Inr tagged \<Rightarrow> Inr (tagged, log_prob))))"

text \<open>\<^verbatim>\<open>a[r, c]\<close> on a table of shape \<open>S \<times> T\<close>.\<close>

definition np_get2 :: "nat \<Rightarrow> nat \<Rightarrow> 'a list list \<Rightarrow> int \<Rightarrow> int \<Rightarrow> error + 'a" where
  "np_get2 S T a r c =
     (case np_index S r of Inl e \<Rightarrow> Inl e
      | Inr r' \<Rightarrow> (case np_index T c of Inl e \<Rightarrow> Inl e | Inr c' \<Rightarrow> Inr (a ! r' ! c')))"

text \<open>
  The \<^verbatim>\<open>while\<close> loop of \<^verbatim>\<open>extract_output\<close>: while the path is shorter than the
  sentence, append the back pointer of the last state at column
  \<^verbatim>\<open>len(ex) - len(output)\<close>. \<open>S\<close> is the number of rows of the back-pointer matrix and
  \<open>n\<close> is \<^verbatim>\<open>len(ex)\<close>, its number of columns. The list \<open>cols\<close> is not a variable of
  the program: it records, in order, the column indices at which the loop has read the
  back-pointer matrix.
\<close>

function walk_back ::
  "nat \<Rightarrow> nat \<Rightarrow> int list list \<Rightarrow> int list \<Rightarrow> int list \<Rightarrow> error + (int list \<times> int list)" where
  "walk_back S n back_pointers output cols =
     (if length output < n then
        (case np_get2 S n back_pointers (last output) (int n - int (length output)) of
           Inl e \<Rightarrow> Inl e
         | Inr s \<Rightarrow>
             walk_back S n back_pointers (output @ [s]) (cols @ [int n - int (length output)]))
      else Inr (output, cols))"
  by pat_completeness auto
termination
  by (relation "measure (\<lambda>(S, n, bp, output, cols). n - length output)") auto

declare walk_back.simps [simp del]

text \<open>
  \<^verbatim>\<open>extract_output\<close> up to \<^verbatim>\<open>output = output[::-1]\<close>: the path log-probability, the
  state path, and the columns read. \<^verbatim>\<open>trellis[:, -1]\<close> is the last column;
  \<^verbatim>\<open>.max()\<close> and \<^verbatim>\<open>.argmax()\<close> raise \<^verbatim>\<open>ValueError\<close> on a table without rows.
\<close>

definition best_path ::
  "pyfloat list list \<Rightarrow> int list list \<Rightarrow> nat list \<Rightarrow> error + (pyfloat \<times> int list \<times> int list)" where
  "best_path trellis back_pointers ex =
     (case map_err (\<lambda>row. list_get row (- 1)) trellis of Inl e \<Rightarrow> Inl e
      | Inr final \<Rightarrow>
          (case np_max final of Inl e \<Rightarrow> Inl e
           | Inr log_prob \<Rightarrow>
               (case np_argmax final of Inl e \<Rightarrow> Inl e
                | Inr s \<Rightarrow>
                    (case walk_back (length back_pointers) (length ex) back_pointers [int s] [] of
                       Inl e \<Rightarrow> Inl e
                     | Inr (output, cols) \<Rightarrow> Inr (log_prob, rev output, cols)))))"

text \<open>\<^verbatim>\<open>extract_output\<close>: the path, then the list of word and tag strings.\<close>

definition extract_output ::
  "hmm \<Rightarrow> pyfloat list list \<Rightarrow> int list list \<Rightarrow> nat list
     \<Rightarrow> error + ((string \<times> string) list \<times> pyfloat)" where
  "extract_output h trellis back_pointers ex =
     (case best_path trellis back_pointers ex of Inl e \<Rightarrow> Inl e
      | Inr (log_prob, output, cols) \<Rightarrow>
          (case tag_pairs h ex output of Inl e \<Rightarrow> Inl e
           | Inr tagged \<Rightarrow> Inr (tagged, log_prob)))"

text \<open>\<^verbatim>\<open>np.full((r, c), v)\<close>.\<close>

definition np_full :: "nat \<Rightarrow> nat \<Rightarrow> 'a \<Rightarrow> 'a list list" where
  "np_full r c v = replicate r (replicate c v)"

text \<open>\<^verbatim>\<open>a[:, c] = v\<close> for a vector \<open>v\<close> with one entry per row.\<close>

definition set_column :: "'a list list \<Rightarrow> nat \<Rightarrow> 'a list \<Rightarrow> 'a list list" where
  "set_column a c v = map2 (\<lambda>row x. row[c := x]) a v"

text \<open>\<^verbatim>\<open>a[r, c] = x\<close>.\<close>

definition set_cell :: "'a list list \<Rightarrow> nat \<Rightarrow> nat \<Rightarrow> 'a \<Rightarrow> 'a list list" where
  "set_cell a r c x = a[r := (a ! r)[c := x]]"

text \<open>
  The tables both Viterbi decoders start from: the trellis full of \<open>-\<infinity>\<close> with column 0
  set to \<^verbatim>\<open>init_prob[0,:] + emission_prob[:, ex[0]]\<close>, and the back pointers full of
  \<open>-1\<close>.
\<close>

definition viterbi_start :: "hmm \<Rightarrow> nat list \<Rightarrow> pyfloat list list \<times> int list list" where
  "viterbi_start h ex =
     (let trellis = np_full (length (states h)) (length ex) NInf;
          back_pointers = np_full (length (states h)) (length ex) (- 1)
      in (set_column trellis 0 (map2 fadd (init_prob h ! 0) (column (emission_prob h) (ex ! 0))),
          back_pointers))"

text \<open>
  The loop version. The innermost loop appends the candidates for the source states \<open>k\<close>
  to \<^verbatim>\<open>x\<close>; the loop over \<open>j\<close> stores the maximum and its position in cell \<open>(j, i)\<close>.
\<close>

definition candidates :: "hmm \<Rightarrow> nat list \<Rightarrow> pyfloat list list \<Rightarrow> nat \<Rightarrow> nat \<Rightarrow> pyfloat list" where
  "candidates h ex trellis i j =
     fold (\<lambda>k x. x @ [fadd (fadd (trellis ! k ! (i - 1)) (transition_prob h ! k ! j))
                          (emission_prob h ! j ! (ex ! i))])
       [0..<length (states h)] []"

definition viterbi_cell ::
  "hmm \<Rightarrow> nat list \<Rightarrow> nat \<Rightarrow> nat \<Rightarrow> pyfloat list list \<times> int list list
     \<Rightarrow> error + (pyfloat list list \<times> int list list)" where
  "viterbi_cell h ex i j tb =
     (case tb of (trellis, back_pointers) \<Rightarrow>
        (let x = candidates h ex trellis i j
         in case np_max x of Inl e \<Rightarrow> Inl e
            | Inr m \<Rightarrow>
                (case np_argmax x of Inl e \<Rightarrow> Inl e
                 | Inr a \<Rightarrow> Inr (set_cell trellis j i m, set_cell back_pointers j i (int a)))))"

definition viterbi_column ::
  "hmm \<Rightarrow> nat list \<Rightarrow> nat \<Rightarrow> pyfloat list list \<times> int list list
     \<Rightarrow> error + (pyfloat list list \<times> int list list)" where
  "viterbi_column h ex i tb = fold_err (viterbi_cell h ex i) [0..<length (states h)] tb"

definition viterbi_fill :: "hmm \<Rightarrow> nat list \<Rightarrow> error + (pyfloat list list \<times> int list list)" where
  "viterbi_fill h ex = fold_err (viterbi_column h ex) [1..<length ex] (viterbi_start h ex)"

definition viterbi_decode :: "hmm \<Rightarrow> string list \<Rightarrow> error + ((string \<times> string) list \<times> pyfloat)" where
  "viterbi_decode h ex0 =
     (case encode_sentence h ex0 of Inl e \<Rightarrow> Inl e
      | Inr ex \<Rightarrow>
          (case viterbi_fill h ex of Inl e \<Rightarrow> Inl e
           | Inr (trellis, back_pointers) \<Rightarrow> extract_output h trellis back_pointers ex))"

text \<open>
  The vectorised version. \<^verbatim>\<open>a.T\<close> is the transpose; adding the vector
  \<^verbatim>\<open>trellis[:, i-1]\<close> to a matrix adds it to every row; adding the column vector
  \<^verbatim>\<open>emission_prob[:, ex[i]].reshape(-1, 1)\<close> adds its entry \<open>j\<close> to every cell of row
  \<open>j\<close>. \<^verbatim>\<open>np.max(prob, axis=1)\<close> and \<^verbatim>\<open>np.argmax(prob, axis=1)\<close> reduce every row and
  raise \<^verbatim>\<open>ValueError\<close> when the reduced axis has size 0; \<^verbatim>\<open>prob\<close> is square, so
  that is when it has no rows. (The first value of \<^verbatim>\<open>prob\<close>, a matrix of \<open>-\<infinity>\<close>,
  is never read.)
\<close>

definition np_transpose :: "'a list list \<Rightarrow> 'a list list" where
  "np_transpose a = (case a of [] \<Rightarrow> [] | row # _ \<Rightarrow> map (column a) [0..<length row])"

definition add_vector :: "pyfloat list \<Rightarrow> pyfloat list list \<Rightarrow> pyfloat list list" where
  "add_vector v a = map (\<lambda>row. map2 fadd v row) a"

definition add_column_vector :: "pyfloat list list \<Rightarrow> pyfloat list \<Rightarrow> pyfloat list list" where
  "add_column_vector a v = map2 (\<lambda>row e. map (\<lambda>x. fadd x e) row) a v"

definition reduce_axis1 :: "('a list \<Rightarrow> error + 'b) \<Rightarrow> 'a list list \<Rightarrow> error + 'b list" where
  "reduce_axis1 f a = (if a = [] then Inl ValueError else map_err f a)"

definition fast_viterbi_column ::
  "hmm \<Rightarrow> nat list \<Rightarrow> nat \<Rightarrow> pyfloat list list \<times> int list list
     \<Rightarrow> error + (pyfloat list list \<times> int list list)" where
  "fast_viterbi_column h ex i tb =
     (case tb of (trellis, back_pointers) \<Rightarrow>
        (let prob = add_column_vector
                      (add_vector (column trellis (i - 1)) (np_transpose (transition_prob h)))
                      (column (emission_prob h) (ex ! i))
         in case reduce_axis1 np_max prob of Inl e \<Rightarrow> Inl e
            | Inr m \<Rightarrow>
                (case reduce_axis1 np_argmax prob of Inl e \<Rightarrow> Inl e
                 | Inr a \<Rightarrow> Inr (set_column trellis i m, set_column back_pointers i (map int a)))))"

definition fast_viterbi_fill :: "hmm \<Rightarrow> nat list \<Rightarrow> error + (pyfloat list list \<times> int list list)" where
  "fast_viterbi_fill h ex =
     fold_err (fast_viterbi_column h ex) [1..<length ex] (viterbi_start h ex)"

definition fast_viterbi_decode :: "hmm \<Rightarrow> string list \<Rightarrow> error + ((string \<times> string) list \<times> pyfloat)" where
  "fast_viterbi_decode h ex0 =
     (case encode_sentence h ex0 of Inl e \<Rightarrow> Inl e
      | Inr ex \<Rightarrow>
          (case fast_viterbi_fill h ex of Inl e \<Rightarrow> Inl e
           | Inr (trellis, back_pointers) \<Rightarrow> extract_output h trellis back_pointers ex))"

subsection \<open>Perplexity and the hard-EM loop\<close>

text \<open>
  \<^verbatim>\<open>get_perplexity\<close>. The log-probabilities are NumPy floats, so dividing by the length
  of an empty sentence gives an infinity or NaN; \<^verbatim>\<open>-1/len(data)\<close> is a division of
  Python integers, which raises \<^verbatim>\<open>ZeroDivisionError\<close> on an empty collection.
\<close>

definition get_perplexity :: "('a list \<times> pyfloat) list \<Rightarrow> error + pyfloat" where
  "get_perplexity data =
     (let sum_prob = fold (\<lambda>(sent, log_prob) acc. fadd acc (fdiv log_prob (real (length sent))))
                       data (Fin 0)
      in if length data = 0 then Inl ZeroDivisionError
         else Inr (fpow2 (fscale (- 1 / real (length data)) sum_prob)))"

text \<open>
  The hard-EM cell of the notebook. Its state is \<^verbatim>\<open>old_perplexity\<close>, \<^verbatim>\<open>delta\<close> and
  \<^verbatim>\<open>hmm\<close>. The field \<open>trace\<close> is not a variable of the program: it records, in
  order, the steps the loop has performed, so that statements about the order of decoding,
  evaluation and retraining can be made.
\<close>

datatype event = Decoded | Evaluated pyfloat pyfloat | Retrained

record em_state =
  old_perplexity :: pyfloat
  delta :: pyfloat
  hmm_obj :: hmm
  trace :: "event list"

definition PERPLEXITY_TH :: pyfloat where
  "PERPLEXITY_TH = Fin (1 / 10)"

text \<open>
  One run of the loop body. \<^verbatim>\<open>list(set(...))\<close> lists the distinct tags in an order
  that Python does not fix; \<open>list_set\<close> stands for it.
\<close>

definition em_body ::
  "(string list \<Rightarrow> string list) \<Rightarrow> string list \<Rightarrow> string list list \<Rightarrow> string list list
     \<Rightarrow> em_state \<Rightarrow> error + em_state" where
  "em_body list_set vocab train_input test_input st =
     (case map_err (viterbi_decode (hmm_obj st)) train_input of Inl e \<Rightarrow> Inl e
      | Inr pred_train \<Rightarrow>
     (case map_err (viterbi_decode (hmm_obj st)) test_input of Inl e \<Rightarrow> Inl e
      | Inr pred_test \<Rightarrow>
     (case get_perplexity pred_test of Inl e \<Rightarrow> Inl e
      | Inr new_perplexity \<Rightarrow>
     (let delta1 = fsub (old_perplexity st) new_perplexity;
          new_train_set = map fst (pred_train @ pred_test);
          new_tags = list_set (concat (map (map snd) new_train_set))
      in case train (HMM_init vocab new_tags) new_train_set of Inl e \<Rightarrow> Inl e
         | Inr hmm1 \<Rightarrow>
             Inr \<lparr> old_perplexity = new_perplexity, delta = delta1, hmm_obj = hmm1,
                   trace = trace st @ [Decoded, Evaluated new_perplexity delta1, Retrained] \<rparr>))))"

text \<open>
  \<^verbatim>\<open>while delta > PERPLEXITY_TH\<close>. Nothing bounds the number of iterations, so the
  loop takes fuel: \<open>None\<close> says that the fuel ran out before the loop ended.
\<close>

fun em_loop ::
  "nat \<Rightarrow> (string list \<Rightarrow> string list) \<Rightarrow> string list \<Rightarrow> string list list \<Rightarrow> string list list
     \<Rightarrow> em_state \<Rightarrow> error + em_state option" where
  "em_loop fuel list_set vocab train_input test_input st =
     (if fgt (delta st) PERPLEXITY_TH then
        (case fuel of 0 \<Rightarrow> Inr None
         | Suc fuel' \<Rightarrow>
             (case em_body list_set vocab train_input test_input st of Inl e \<Rightarrow> Inl e
              | Inr st' \<Rightarrow> em_loop fuel' list_set vocab train_input test_input st'))
      else Inr (Some st))"

declare em_loop.simps [simp del]

text \<open>The cell from its first line: build and train the model, seed the two variables.\<close>

definition hard_em ::
  "nat \<Rightarrow> (string list \<Rightarrow> string list) \<Rightarrow> string list \<Rightarrow> string list
     \<Rightarrow> (string \<times> string) list list \<Rightarrow> string list list \<Rightarrow> string list list
     \<Rightarrow> error + em_state option" where
  "hard_em fuel list_set vocab tags mini_train_set train_input test_input =
     (case train (HMM_init vocab tags) mini_train_set of Inl e \<Rightarrow> Inl e
      | Inr hmm0 \<Rightarrow>
          em_loop fuel list_set vocab train_input test_input
            \<lparr> old_perplexity = PInf, delta = PInf, hmm_obj = hmm0, trace = [] \<rparr>)"

subsection \<open>Predicates on tables\<close>

text \<open>The shape of a table: the lengths of its rows.\<close>

definition shape :: "'a list list \<Rightarrow> nat list" where
  "shape a = map length a"

text \<open>
  The shapes the constructor gives the three tables, with the sentinel in the vocabulary.
  \<^verbatim>\<open>train\<close> keeps them (lemmas \<open>well_shaped_init\<close> and \<open>well_shaped_train\<close>).
\<close>

definition well_shaped :: "hmm \<Rightarrow> bool" where
  "well_shaped h =
     (emissions h \<noteq> [] \<and> last (emissions h) = UNK
      \<and> shape (init_prob h) = [length (states h)]
      \<and> shape (emission_prob h) = replicate (length (states h)) (length (emissions h))
      \<and> shape (transition_prob h) = replicate (length (states h)) (length (states h)))"

text \<open>A finite float: not an infinity, not NaN.\<close>

fun is_fin :: "pyfloat \<Rightarrow> bool" where
  "is_fin (Fin a) = True"
| "is_fin _ = False"

text \<open>
  A row of a log table is normalised when its entries are finite and \<^verbatim>\<open>np.sum(2 ** row)\<close> is 1.
\<close>

definition normalized_row :: "pyfloat list \<Rightarrow> bool" where
  "normalized_row row = (list_all is_fin row \<and> np_sum (map fpow2 row) = Fin 1)"

text \<open>A count: a finite float that is not negative.\<close>

fun is_count :: "pyfloat \<Rightarrow> bool" where
  "is_count (Fin a) = (0 \<le> a)"
| "is_count _ = False"

definition count_table :: "pyfloat list list \<Rightarrow> bool" where
  "count_table a = list_all (list_all is_count) a"

subsection \<open>Auxiliary notions for the decoders\<close>

text \<open>
  The position \<^verbatim>\<open>np.argmax\<close> returns on a non-empty array, as a total function.
\<close>

definition first_max :: "pyfloat list \<Rightarrow> nat" where
  "first_max xs = argmax_scan (tl xs) 1 0 (hd xs)"

text \<open>
  What one round of the outer loop of either Viterbi decoder does to the two tables: column
  \<open>i\<close> of the trellis receives, for every destination state, the maximum of its
  candidates, and column \<open>i\<close> of the back pointers the position of that maximum.
\<close>

definition next_column ::
  "hmm \<Rightarrow> nat list \<Rightarrow> nat \<Rightarrow> pyfloat list list \<times> int list list
     \<Rightarrow> pyfloat list list \<times> int list list" where
  "next_column h ex i tb =
     (case tb of (trellis, back_pointers) \<Rightarrow>
        (set_column trellis i
           (map (\<lambda>j. candidates h ex trellis i j ! first_max (candidates h ex trellis i j))
              [0..<length (states h)]),
         set_column back_pointers i
           (map (\<lambda>j. int (first_max (candidates h ex trellis i j))) [0..<length (states h)])))"

text \<open>
  The two tables after the columns below \<open>c\<close> have been written: both have \<open>S\<close> rows of
  length \<open>T\<close>, and every back pointer in the columns \<open>1, \<dots>, c - 1\<close> is a state id.
\<close>

definition filled :: "nat \<Rightarrow> nat \<Rightarrow> nat \<Rightarrow> pyfloat list list \<times> int list list \<Rightarrow> bool" where
  "filled S T c tb =
     (case tb of (trellis, back_pointers) \<Rightarrow>
        map length trellis = replicate S T \<and> map length back_pointers = replicate S T
        \<and> (\<forall>j < S. \<forall>c'. 0 < c' \<and> c' < c \<longrightarrow>
               0 \<le> back_pointers ! j ! c' \<and> back_pointers ! j ! c' < int S))"

text \<open>
  The Viterbi recurrence on the columns below \<open>c\<close>: column 0 of the trellis is
  \<^verbatim>\<open>init_prob[0,:] + emission_prob[:, ex[0]]\<close>, and in every later column each cell holds
  the maximum of its candidates and the matching back pointer the position of that maximum.
\<close>

definition recurrence :: "hmm \<Rightarrow> nat list \<Rightarrow> nat \<Rightarrow> pyfloat list list \<times> int list list \<Rightarrow> bool" where
  "recurrence h ex c tb =
     (case tb of (trellis, back_pointers) \<Rightarrow>
        column trellis 0 = map2 fadd (init_prob h ! 0) (column (emission_prob h) (ex ! 0))
        \<and> (\<forall>i j. 0 < i \<and> i < c \<and> j < length (states h) \<longrightarrow>
               trellis ! j ! i = candidates h ex trellis i j ! first_max (candidates h ex trellis i j)
               \<and> back_pointers ! j ! i = int (first_max (candidates h ex trellis i j))))"

text \<open>Every trellis entry in the columns below \<open>c\<close> is finite.\<close>

definition finite_below :: "nat \<Rightarrow> nat \<Rightarrow> pyfloat list list \<times> int list list \<Rightarrow> bool" where
  "finite_below S c tb = (case tb of (trellis, back_pointers) \<Rightarrow>
     (\<forall>j < S. \<forall>i < c. is_fin (trellis ! j ! i)))"

subsection \<open>The objects of the worked example\<close>

definition tiny_vocab :: "string list" where
  "tiny_vocab = [''the'', ''dog'', ''barks'']"

definition tiny_states :: "string list" where
  "tiny_states = [''DET'', ''NOUN'', ''VERB'']"

definition tiny_corpus :: "(string \<times> string) list list" where
  "tiny_corpus = [[(''the'', ''DET''), (''dog'', ''NOUN''), (''barks'', ''VERB'')]]"

definition tiny_model :: hmm where
  "tiny_model =
     \<lparr> emissions = [''the'', ''dog'', ''barks'', ''<UNK>''],
       states = [''DET'', ''NOUN'', ''VERB''],
       init_prob = [[Fin (log 2 (2 / 4)), Fin (log 2 (1 / 4)), Fin (log 2 (1 / 4))]],
       emission_prob =
         [[Fin (log 2 (2 / 5)), Fin (log 2 (1 / 5)), Fin (log 2 (1 / 5)), Fin (log 2 (1 / 5))],
          [Fin (log 2 (1 / 5)), Fin (log 2 (2 / 5)), Fin (log 2 (1 / 5)), Fin (log 2 (1 / 5))],
          [Fin (log 2 (1 / 5)), Fin (log 2 (1 / 5)), Fin (log 2 (2 / 5)), Fin (log 2 (1 / 5))]],
       transition_prob =
         [[Fin (log 2 (1 / 4)), Fin (log 2 (2 / 4)), Fin (log 2 (1 / 4))],
          [Fin (log 2 (1 / 4)), Fin (log 2 (1 / 4)), Fin (log 2 (2 / 4))],
          [Fin (log 2 (1 / 3)), Fin (log 2 (1 / 3)), Fin (log 2 (1 / 3))]] \<rparr>"

subsection \<open>Registry lemmas\<close>

lemma fold_enum_None:
  "w \<notin> set xs \<Longrightarrow> fold (\<lambda>(i, w) m. m(w \<mapsto> i)) (List.enumerate n xs) m w = m w"
  by (induction xs arbitrary: n m) auto

lemma fold_enum_Some:
  "w \<in> set xs \<Longrightarrow>
   \<exists>i. fold (\<lambda>(i, w) m. m(w \<mapsto> i)) (List.enumerate n xs) m w = Some (n + i)
        \<and> i < length xs \<and> xs ! i = w"
proof (induction xs arbitrary: n m)
  case Nil
  then show ?case by simp
next
  case (Cons x xs)
  show ?case
  proof (cases "w \<in> set xs")
    case True
    from Cons.IH [OF True, of "Suc n" "m(x \<mapsto> n)"]
    obtain i where
      "fold (\<lambda>(i, w) m. m(w \<mapsto> i)) (List.enumerate (Suc n) xs) (m(x \<mapsto> n)) w = Some (Suc n + i)"
      "i < length xs" "xs ! i = w"
      by blast
    then show ?thesis
      by (intro exI [of _ "Suc i"]) (simp del: fun_upd_apply)
  next
    case False
    with Cons.prems have "w = x" by simp
    with False show ?thesis
      by (intro exI [of _ 0]) (simp add: fold_enum_None fun_upd_same del: fun_upd_apply)
  qed
qed

lemma enumerate_dict_None: "w \<notin> set xs \<Longrightarrow> enumerate_dict xs w = None"
  by (simp add: enumerate_dict_def fold_enum_None)

lemma enumerate_dict_Some:
  "w \<in> set xs \<Longrightarrow> \<exists>i. enumerate_dict xs w = Some i \<and> i < length xs \<and> xs ! i = w"
  using fold_enum_Some [of w xs 0 Map.empty] by (simp add: enumerate_dict_def)

lemma dom_enumerate_dict: "dom (enumerate_dict xs) = set xs"
proof (intro set_eqI iffI)
  fix w assume "w \<in> dom (enumerate_dict xs)"
  then show "w \<in> set xs" by (cases "w \<in> set xs") (auto simp: enumerate_dict_None)
next
  fix w assume "w \<in> set xs"
  then show "w \<in> dom (enumerate_dict xs)" using enumerate_dict_Some [of w xs] by auto
qed

lemma enumerate_dict_last:
  "enumerate_dict (xs @ [x]) x = Some (length xs)"
  by (simp add: enumerate_dict_def enumerate_append_eq)

lemma encode_word_known:
  assumes "w \<in> set (emissions h)"
  shows "\<exists>i. encode_word h w = Inr i \<and> i < length (emissions h) \<and> emissions h ! i = w"
  using enumerate_dict_Some [OF assms] assms
  by (auto simp: encode_word_def w2i_def dict_get_def dom_enumerate_dict)

lemma encode_word_unknown:
  assumes "w \<notin> set vocab"
  shows "encode_word (HMM_init vocab sts) w = Inr (length vocab)"
  using assms
  by (auto simp: encode_word_def w2i_def dict_get_def dom_enumerate_dict HMM_init_def Let_def
      enumerate_dict_last)

lemma encode_word_bound:
  assumes "encode_word h w = Inr i"
  shows "i < length (emissions h)"
proof -
  define k where "k = (if w \<in> dom (w2i h) then w else UNK)"
  from assms have "dict_get (enumerate_dict (emissions h)) k = Inr i"
    by (simp add: encode_word_def k_def w2i_def)
  then have some: "enumerate_dict (emissions h) k = Some i"
    by (cases "enumerate_dict (emissions h) k") (simp_all add: dict_get_def)
  then have "k \<in> set (emissions h)"
    using enumerate_dict_None [of k "emissions h"] by force
  from enumerate_dict_Some [OF this] some show ?thesis
    by auto
qed

lemma encode_pair_bound:
  assumes "encode_pair h p = Inr (wi, si)"
  shows "wi < length (emissions h) \<and> si < length (states h)"
proof -
  from assms have w: "encode_word h (fst p) = Inr wi" and s: "dict_get (s2i h) (snd p) = Inr si"
    by (auto simp: encode_pair_def split: sum.splits)
  from s have some: "enumerate_dict (states h) (snd p) = Some si"
    by (cases "enumerate_dict (states h) (snd p)") (simp_all add: dict_get_def s2i_def)
  then have "snd p \<in> set (states h)"
    using enumerate_dict_None [of "snd p" "states h"] by force
  from enumerate_dict_Some [OF this] some encode_word_bound [OF w] show ?thesis
    by auto
qed

subsection \<open>The index registry\<close>

text \<open>
  Claim C5. In the registry that the constructor builds from a word list \<open>vocab\<close>: a word
  of the vocabulary is encoded to an id that decodes to the same string; a word outside the
  vocabulary is encoded to the id \<open>length vocab\<close>, which is the last id of the registry
  and decodes to the sentinel string. (The words need not even be distinct.)
\<close>

theorem registry_round_trip:
  "(w \<in> set vocab \<longrightarrow>
      (\<exists>i. encode_word (HMM_init vocab sts) w = Inr i
           \<and> list_get (i2w (HMM_init vocab sts)) (int i) = Inr w))
   \<and> (w \<notin> set vocab \<longrightarrow>
        encode_word (HMM_init vocab sts) w = Inr (length vocab)
        \<and> Suc (length vocab) = length (i2w (HMM_init vocab sts))
        \<and> list_get (i2w (HMM_init vocab sts)) (int (length vocab)) = Inr UNK)"
proof (intro conjI impI)
  assume "w \<in> set vocab"
  then have "w \<in> set (emissions (HMM_init vocab sts))"
    by (simp add: HMM_init_def Let_def)
  from encode_word_known [OF this]
  show "\<exists>i. encode_word (HMM_init vocab sts) w = Inr i
           \<and> list_get (i2w (HMM_init vocab sts)) (int i) = Inr w"
    by (auto simp: list_get_def np_index_def i2w_def)
next
  assume "w \<notin> set vocab"
  then show "encode_word (HMM_init vocab sts) w = Inr (length vocab)"
    by (rule encode_word_unknown)
next
  show "Suc (length vocab) = length (i2w (HMM_init vocab sts))"
    by (simp add: i2w_def HMM_init_def Let_def)
next
  show "list_get (i2w (HMM_init vocab sts)) (int (length vocab)) = Inr UNK"
    by (simp add: list_get_def np_index_def i2w_def HMM_init_def Let_def)
qed

theorem registry_round_trip_witness:
  "''dog'' \<in> set tiny_vocab
   \<and> (\<exists>i. encode_word (HMM_init tiny_vocab tiny_states) ''dog'' = Inr i
          \<and> list_get (i2w (HMM_init tiny_vocab tiny_states)) (int i) = Inr ''dog'')
   \<and> ''cat'' \<notin> set tiny_vocab
   \<and> encode_word (HMM_init tiny_vocab tiny_states) ''cat'' = Inr 3
   \<and> list_get (i2w (HMM_init tiny_vocab tiny_states)) 3 = Inr ''<UNK>''"
proof -
  have in_v: "''dog'' \<in> set tiny_vocab" and out_v: "''cat'' \<notin> set tiny_vocab"
    by (simp_all add: tiny_vocab_def)
  have len: "length tiny_vocab = 3"
    by (simp add: tiny_vocab_def)
  from registry_round_trip [of "''dog''" tiny_vocab tiny_states] in_v
  have "\<exists>i. encode_word (HMM_init tiny_vocab tiny_states) ''dog'' = Inr i
          \<and> list_get (i2w (HMM_init tiny_vocab tiny_states)) (int i) = Inr ''dog''"
    by blast
  moreover from registry_round_trip [of "''cat''" tiny_vocab tiny_states] out_v
  have "encode_word (HMM_init tiny_vocab tiny_states) ''cat'' = Inr 3
        \<and> list_get (i2w (HMM_init tiny_vocab tiny_states)) 3 = Inr ''<UNK>''"
    by (simp add: len UNK_def)
  ultimately show ?thesis
    using in_v out_v by blast
qed

subsection \<open>The worked example of training\<close>

lemmas run_train =
  train_def data2i_pairs_def first_first_def encode_pair_def encode_word_def w2i_def s2i_def
  enumerate_dict_def dict_get_def UNK_def Let_def np_zeros_def zero_fill_def
  count_sentence_def incr_def add_one_def log_normalize_all_def log_normalize_def np_sum_def
  HMM_init_def

lemma train_tiny: "train (HMM_init tiny_vocab tiny_states) tiny_corpus = Inr tiny_model"
  by (simp add: run_train tiny_corpus_def tiny_vocab_def tiny_states_def tiny_model_def)

lemma pow_5_643: "(5::real) ^ 643 < 2 ^ 1493"
  by simp

lemma pow_2_1832: "(2::real) ^ 1832 < 5 ^ 789"
  by simp

lemma log2_power_less:
  assumes "0 < x" and "0 < y" and "x ^ n < y ^ m"
  shows "real n * log 2 x < real m * log 2 y"
proof -
  have "log 2 (x ^ n) < log 2 (y ^ m)"
    using assms by (subst log_less_cancel_iff) simp_all
  then show ?thesis
    using assms by (simp only: log_nat_power)
qed

lemma log2_5_bounds: "1832 / 789 < log 2 5" "log 2 5 < 1493 / 643"
  using log2_power_less [OF _ _ pow_2_1832] log2_power_less [OF _ _ pow_5_643]
  by (simp_all add: field_simps)

text \<open>
  Claim C3. Training a fresh model over the vocabulary \<open>the, dog, barks\<close> (plus the
  sentinel) and the states \<open>DET, NOUN, VERB\<close> on the one sentence
  \<open>the/DET dog/NOUN barks/VERB\<close> returns \<open>tiny_model\<close>, in which: the words and states
  have the ids 0, 1, 2 in the order given; the row of \<open>DET\<close> in the emission table is
  \<open>log\<^sub>2\<close> of \<open>[2,1,1,1]/5\<close>, so that the entry of \<open>the\<close> is \<open>log\<^sub>2 0.4\<close>, which is
  \<open>-1.32193\<close> to five decimals; the row of \<open>DET\<close> in the transition table is \<open>log\<^sub>2\<close> of
  \<open>[1,2,1]/4\<close>, with the entry \<open>-1\<close> for \<open>NOUN\<close>; the row of \<open>VERB\<close> is three times
  \<open>log\<^sub>2 (1/3)\<close>; and the initial table is \<open>log\<^sub>2\<close> of \<open>[2,1,1]/4\<close>, that is
  \<open>-1, -2, -2\<close>.
\<close>

theorem train_tiny_tables:
  "train (HMM_init tiny_vocab tiny_states) tiny_corpus = Inr tiny_model
   \<and> map (encode_word tiny_model) [''the'', ''dog'', ''barks''] = [Inr 0, Inr 1, Inr 2]
   \<and> map (dict_get (s2i tiny_model)) [''DET'', ''NOUN'', ''VERB''] = [Inr 0, Inr 1, Inr 2]
   \<and> emission_prob tiny_model ! 0 = map (\<lambda>c. Fin (log 2 (c / 5))) [2, 1, 1, 1]
   \<and> emission_prob tiny_model ! 0 ! 0 = Fin (log 2 0.4)
   \<and> \<bar>log 2 0.4 - (- 1.32193)\<bar> < 0.000005
   \<and> transition_prob tiny_model ! 0 = map (\<lambda>c. Fin (log 2 (c / 4))) [1, 2, 1]
   \<and> transition_prob tiny_model ! 0 ! 1 = Fin (- 1)
   \<and> transition_prob tiny_model ! 2 = replicate 3 (Fin (log 2 (1 / 3)))
   \<and> init_prob tiny_model = [map (\<lambda>c. Fin (log 2 (c / 4))) [2, 1, 1]]
   \<and> init_prob tiny_model = [[Fin (- 1), Fin (- 2), Fin (- 2)]]"
proof -
  have half: "log 2 (1 / 2) = - 1"
    using log_divide [of 2 1 2] by simp
  have quarter: "log 2 (1 / 4) = - 2"
    using log_divide [of 2 1 "2 ^ 2"] log_nat_power [of 2 2 2] by simp
  have "log 2 0.4 = 1 - log 2 5"
    using log_divide [of 2 2 5] by simp
  then have approx: "\<bar>log 2 0.4 - (- 1.32193)\<bar> < 0.000005"
    using log2_5_bounds by (simp add: abs_less_iff)
  have ids: "map (encode_word tiny_model) [''the'', ''dog'', ''barks''] = [Inr 0, Inr 1, Inr 2]"
    "map (dict_get (s2i tiny_model)) [''DET'', ''NOUN'', ''VERB''] = [Inr 0, Inr 1, Inr 2]"
    by (simp_all add: tiny_model_def encode_word_def w2i_def s2i_def enumerate_dict_def
        dict_get_def UNK_def)
  have rows: "emission_prob tiny_model ! 0 = map (\<lambda>c. Fin (log 2 (c / 5))) [2, 1, 1, 1]"
    "emission_prob tiny_model ! 0 ! 0 = Fin (log 2 0.4)"
    "transition_prob tiny_model ! 0 = map (\<lambda>c. Fin (log 2 (c / 4))) [1, 2, 1]"
    "transition_prob tiny_model ! 2 = replicate 3 (Fin (log 2 (1 / 3)))"
    "init_prob tiny_model = [map (\<lambda>c. Fin (log 2 (c / 4))) [2, 1, 1]]"
    by (simp_all add: tiny_model_def numeral_3_eq_3)
  have vals: "transition_prob tiny_model ! 0 ! 1 = Fin (- 1)"
    "init_prob tiny_model = [[Fin (- 1), Fin (- 2), Fin (- 2)]]"
    by (simp_all add: tiny_model_def half quarter del: divide_eq_eq_numeral1)
  show ?thesis
    using train_tiny approx ids rows vals by blast
qed

subsection \<open>Empty sentences\<close>

lemma encode_sentence_Nil: "encode_sentence h [] = Inl IndexError"
  by (simp add: encode_sentence_def data2i_words_def first_first_def)

text \<open>
  Claim C8. Each of the three decoders, given the empty sentence, raises an exception and
  returns no result: \<^verbatim>\<open>data2i\<close> evaluates \<^verbatim>\<open>data[0][0]\<close> on the empty sentence,
  which is Python's \<^verbatim>\<open>IndexError\<close>.
\<close>

theorem decode_empty_sentence:
  "greedy_decode h [] = Inl IndexError
   \<and> viterbi_decode h [] = Inl IndexError
   \<and> fast_viterbi_decode h [] = Inl IndexError"
  by (simp add: greedy_decode_def viterbi_decode_def fast_viterbi_decode_def
      encode_sentence_Nil)

subsection \<open>Perplexity\<close>

lemma perplexity_fold:
  assumes "\<forall>p \<in> set d. fst p \<noteq> []"
  shows "fold (\<lambda>(sent, log_prob) acc. fadd acc (fdiv log_prob (real (length sent))))
           (map (\<lambda>(sent, l). (sent, Fin l)) d) (Fin a)
         = Fin (a + (\<Sum>(sent, l) \<leftarrow> d. l / real (length sent)))"
  using assms
proof (induction d arbitrary: a)
  case Nil
  then show ?case by simp
next
  case (Cons p d)
  obtain sent l where p: "p = (sent, l)" by (cases p)
  with Cons.prems have "sent \<noteq> []" by simp
  with Cons p show ?case by (simp add: add.assoc)
qed

text \<open>
  Claim C7. For a collection \<open>d\<close> of \<open>N \<ge> 1\<close> pairs of a sentence of length at least 1 and
  a (finite) log-probability, \<^verbatim>\<open>get_perplexity\<close> returns
  \<open>2\<close> to the power \<open>-(1/N) \<cdot> \<Sum> log_prob / |sentence|\<close>.
\<close>

theorem get_perplexity_formula:
  assumes "d \<noteq> []" and "\<forall>p \<in> set d. fst p \<noteq> []"
  shows "get_perplexity (map (\<lambda>(sent, l). (sent, Fin l)) d)
         = Inr (Fin (2 powr (- (1 / real (length d))
                             * (\<Sum>(sent, l) \<leftarrow> d. l / real (length sent)))))"
  using assms(1) by (simp add: get_perplexity_def perplexity_fold [OF assms(2)])

theorem get_perplexity_formula_witness:
  "[([''a'', ''b''], - 4), ([''c''], - 1 :: real)] \<noteq> []
   \<and> list_all (\<lambda>p. fst p \<noteq> []) [([''a'', ''b''], - 4), ([''c''], - 1 :: real)]
   \<and> get_perplexity [([''a'', ''b''], Fin (- 4)), ([''c''], Fin (- 1))]
       = Inr (Fin (2 powr (3 / 2)))"
  using get_perplexity_formula [of "[([''a'', ''b''], - 4), ([''c''], - 1)]"]
  by simp

subsection \<open>Training keeps the registry and the shapes\<close>

lemma shape_incr: "shape (incr a r c) = shape a"
proof -
  have "length (a[r := (a ! r)[c := x]] ! i) = length (a ! i)" if "i < length a" for i x
    using that by (cases "i = r") simp_all
  then show ?thesis
    by (simp add: shape_def incr_def list_eq_iff_nth_eq)
qed

lemma zero_fill_shape: "zero_fill a = map (\<lambda>n. replicate n (Fin 0)) (shape a)"
  by (simp add: zero_fill_def shape_def map_replicate_const)

lemma shape_zero_fill: "shape (zero_fill a) = shape a"
  by (simp add: zero_fill_def shape_def)

lemma shape_add_one: "shape (add_one a) = shape a"
  by (simp add: add_one_def shape_def)

lemma shape_log_normalize_all: "shape (log_normalize_all a) = shape a"
  by (simp add: log_normalize_all_def shape_def Let_def)

lemma shape_map_log_normalize: "shape (map log_normalize a) = shape a"
  by (simp add: log_normalize_def shape_def Let_def)

lemma count_pair_shape:
  assumes "count_pair p (f, ip, ep, tp) = (f', ip', ep', tp')"
  shows "shape ip' = shape ip \<and> shape ep' = shape ep \<and> shape tp' = shape tp"
  using assms by (cases p) (auto simp: Let_def shape_incr split: if_splits)

lemma fold_count_pair_shape:
  assumes "fold count_pair s (f, ip, ep, tp) = (f', ip', ep', tp')"
  shows "shape ip' = shape ip \<and> shape ep' = shape ep \<and> shape tp' = shape tp"
  using assms
proof (induction s arbitrary: f ip ep tp)
  case Nil
  then show ?case by simp
next
  case (Cons p s)
  obtain f1 ip1 ep1 tp1 where step: "count_pair p (f, ip, ep, tp) = (f1, ip1, ep1, tp1)"
    by (cases "count_pair p (f, ip, ep, tp)") auto
  with Cons.prems have "fold count_pair s (f1, ip1, ep1, tp1) = (f', ip', ep', tp')"
    by simp
  from Cons.IH [OF this] count_pair_shape [OF step] show ?case by simp
qed

lemma count_sentence_shape:
  assumes "count_sentence s (ip, ep, tp) = (ip', ep', tp')"
  shows "shape ip' = shape ip \<and> shape ep' = shape ep \<and> shape tp' = shape tp"
proof -
  obtain f' where "fold count_pair s (- 1, ip, ep, tp) = (f', ip', ep', tp')"
    using assms by (cases "fold count_pair s (- 1, ip, ep, tp)") (auto simp: count_sentence_def)
  then show ?thesis by (rule fold_count_pair_shape)
qed

lemma fold_count_sentence_shape:
  assumes "fold count_sentence ss (ip, ep, tp) = (ip', ep', tp')"
  shows "shape ip' = shape ip \<and> shape ep' = shape ep \<and> shape tp' = shape tp"
  using assms
proof (induction ss arbitrary: ip ep tp)
  case Nil
  then show ?case by simp
next
  case (Cons s ss)
  obtain ip1 ep1 tp1 where step: "count_sentence s (ip, ep, tp) = (ip1, ep1, tp1)"
    by (cases "count_sentence s (ip, ep, tp)") auto
  with Cons.prems have "fold count_sentence ss (ip1, ep1, tp1) = (ip', ep', tp')"
    by simp
  from Cons.IH [OF this] count_sentence_shape [OF step] show ?case by simp
qed

lemma train_fields:
  assumes "train h data = Inr h'"
  shows "emissions h' = emissions h \<and> states h' = states h
         \<and> shape (init_prob h') = shape (init_prob h)
         \<and> shape (emission_prob h') = shape (emission_prob h)
         \<and> shape (transition_prob h') = shape (transition_prob h)"
proof -
  from assms obtain ss where ss: "data2i_pairs h data = Inr ss"
    by (cases "data2i_pairs h data") (auto simp: train_def Let_def)
  obtain ip1 ep1 tp1 where
    cnt: "fold count_sentence ss (zero_fill (init_prob h), zero_fill (emission_prob h),
            zero_fill (transition_prob h)) = (ip1, ep1, tp1)"
    by (cases "fold count_sentence ss (zero_fill (init_prob h), zero_fill (emission_prob h),
            zero_fill (transition_prob h))") auto
  from assms ss cnt have h': "h' = h\<lparr> init_prob := log_normalize_all (add_one ip1),
      emission_prob := map log_normalize (add_one ep1),
      transition_prob := map log_normalize (add_one tp1) \<rparr>"
    by (simp add: train_def Let_def)
  from fold_count_sentence_shape [OF cnt] show ?thesis
    by (simp add: h' shape_log_normalize_all shape_map_log_normalize shape_add_one shape_zero_fill)
qed

lemma train_registry_only:
  assumes "emissions h2 = emissions h1" and "states h2 = states h1"
    and "shape (init_prob h2) = shape (init_prob h1)"
    and "shape (emission_prob h2) = shape (emission_prob h1)"
    and "shape (transition_prob h2) = shape (transition_prob h1)"
    and "train h1 data = Inr h'"
  shows "train h2 data = Inr (h2\<lparr> init_prob := init_prob h', emission_prob := emission_prob h',
           transition_prob := transition_prob h' \<rparr>)"
proof -
  have "w2i h2 = w2i h1" and "s2i h2 = s2i h1"
    using assms(1,2) by (simp_all add: w2i_def s2i_def)
  then have "encode_pair h2 = encode_pair h1"
    unfolding encode_pair_def encode_word_def by (intro ext) (simp only:)
  then have d: "data2i_pairs h2 data = data2i_pairs h1 data"
    unfolding data2i_pairs_def by (simp only:)
  from assms(6) obtain ss where ss: "data2i_pairs h1 data = Inr ss"
    by (cases "data2i_pairs h1 data") (auto simp: train_def Let_def)
  obtain ip1 ep1 tp1 where
    cnt: "fold count_sentence ss (zero_fill (init_prob h1), zero_fill (emission_prob h1),
            zero_fill (transition_prob h1)) = (ip1, ep1, tp1)"
    by (cases "fold count_sentence ss (zero_fill (init_prob h1), zero_fill (emission_prob h1),
            zero_fill (transition_prob h1))") auto
  from assms(6) ss cnt have "h' = h1\<lparr> init_prob := log_normalize_all (add_one ip1),
      emission_prob := map log_normalize (add_one ep1),
      transition_prob := map log_normalize (add_one tp1) \<rparr>"
    by (simp add: train_def Let_def)
  then show ?thesis
    using assms(3,4,5) ss cnt d by (simp add: train_def Let_def zero_fill_shape)
qed

lemma count_table_zero_fill: "count_table (zero_fill a)"
  by (simp add: count_table_def zero_fill_def list_all_iff)

lemma is_count_incr: "is_count x \<Longrightarrow> is_count (fadd x (Fin 1))"
  by (cases x) simp_all

lemma count_table_incr:
  assumes "count_table a"
  shows "count_table (incr a r c)"
proof (cases "r < length a")
  case True
  define new where "new = (a ! r)[c := fadd (a ! r ! c) (Fin 1)]"
  from True have "a ! r \<in> set a" by simp
  with assms have row: "\<forall>x \<in> set (a ! r). is_count x"
    unfolding count_table_def list_all_iff by blast
  have "is_count x" if "x \<in> set new" for x
  proof -
    from that have "x \<in> insert (fadd (a ! r ! c) (Fin 1)) (set (a ! r))"
      using set_update_subset_insert [of "a ! r" c] by (auto simp: new_def)
    moreover have "is_count (fadd (a ! r ! c) (Fin 1))" if "c < length (a ! r)"
      using that row by (intro is_count_incr) simp
    moreover have "new = a ! r" if "\<not> c < length (a ! r)"
      using that by (simp add: new_def list_update_beyond)
    ultimately show ?thesis
      using row that by (cases "c < length (a ! r)") auto
  qed
  moreover have "set (a[r := new]) \<subseteq> insert new (set a)"
    by (rule set_update_subset_insert)
  ultimately show ?thesis
    using assms unfolding count_table_def incr_def list_all_iff new_def [symmetric] by blast
next
  case False
  then have "incr a r c = a"
    by (simp add: incr_def list_update_beyond)
  with assms show ?thesis by simp
qed

lemma count_pair_counts:
  assumes "count_pair p (f, ip, ep, tp) = (f', ip', ep', tp')"
    and "count_table ip" and "count_table ep" and "count_table tp"
  shows "count_table ip' \<and> count_table ep' \<and> count_table tp'"
  using assms by (cases p) (auto simp: Let_def count_table_incr split: if_splits)

lemma fold_count_pair_counts:
  assumes "fold count_pair s (f, ip, ep, tp) = (f', ip', ep', tp')"
    and "count_table ip" and "count_table ep" and "count_table tp"
  shows "count_table ip' \<and> count_table ep' \<and> count_table tp'"
  using assms
proof (induction s arbitrary: f ip ep tp)
  case Nil
  then show ?case by simp
next
  case (Cons p s)
  obtain f1 ip1 ep1 tp1 where step: "count_pair p (f, ip, ep, tp) = (f1, ip1, ep1, tp1)"
    by (cases "count_pair p (f, ip, ep, tp)") auto
  with Cons.prems have rest: "fold count_pair s (f1, ip1, ep1, tp1) = (f', ip', ep', tp')"
    by simp
  from count_pair_counts [OF step Cons.prems(2-4)] Cons.IH [OF rest] show ?case by simp
qed

lemma fold_count_sentence_counts:
  assumes "fold count_sentence ss (ip, ep, tp) = (ip', ep', tp')"
    and "count_table ip" and "count_table ep" and "count_table tp"
  shows "count_table ip' \<and> count_table ep' \<and> count_table tp'"
  using assms
proof (induction ss arbitrary: ip ep tp)
  case Nil
  then show ?case by simp
next
  case (Cons s ss)
  obtain f1 ip1 ep1 tp1 where inner: "fold count_pair s (- 1, ip, ep, tp) = (f1, ip1, ep1, tp1)"
    by (cases "fold count_pair s (- 1, ip, ep, tp)") auto
  then have step: "count_sentence s (ip, ep, tp) = (ip1, ep1, tp1)"
    by (simp add: count_sentence_def)
  with Cons.prems have rest: "fold count_sentence ss (ip1, ep1, tp1) = (ip', ep', tp')"
    by simp
  from fold_count_pair_counts [OF inner Cons.prems(2-4)] Cons.IH [OF rest] show ?case by simp
qed

lemma np_sum_Fin: "fold (\<lambda>x acc. fadd acc x) (map Fin cs) (Fin a) = Fin (a + sum_list cs)"
  by (induction cs arbitrary: a) (simp_all add: add.assoc)

lemma count_row_add_one:
  assumes "list_all is_count row"
  shows "\<exists>cs. map (\<lambda>x. fadd x (Fin 1)) row = map Fin cs \<and> (\<forall>c \<in> set cs. 0 < c)
              \<and> length cs = length row"
  using assms
proof (induction row)
  case Nil
  then show ?case by simp
next
  case (Cons x row)
  then obtain cs where cs: "map (\<lambda>x. fadd x (Fin 1)) row = map Fin cs" "\<forall>c \<in> set cs. 0 < c"
    "length cs = length row"
    by auto
  from Cons.prems obtain c where c: "x = Fin c" "0 \<le> c"
    by (cases x) simp_all
  show ?case
    using cs c by (intro exI [of _ "(c + 1) # cs"]) simp
qed

lemma log_normalize_positive:
  assumes "\<forall>c \<in> set cs. 0 < c" and "cs \<noteq> []"
  shows "normalized_row (map (\<lambda>x. flog2 (fdivf x (np_sum (map Fin cs)))) (map Fin cs))"
proof -
  define s where "s = sum_list cs"
  have s_pos: "0 < s"
    unfolding s_def using assms by (cases cs) (auto intro: add_pos_nonneg sum_list_nonneg less_imp_le)
  have sum: "np_sum (map Fin cs) = Fin s"
    by (simp add: np_sum_def np_sum_Fin s_def)
  have row: "map (\<lambda>x. flog2 (fdivf x (Fin s))) (map Fin cs) = map (\<lambda>c. Fin (log 2 (c / s))) cs"
    using assms(1) s_pos by simp
  have pw: "map fpow2 (map (\<lambda>c. Fin (log 2 (c / s))) cs) = map Fin (map (\<lambda>c. c / s) cs)"
    using assms(1) s_pos by simp
  have "sum_list (map (\<lambda>c. c / s) cs) = sum_list cs / s"
    by (induction cs) (simp_all add: add_divide_distrib)
  then have one: "sum_list (map (\<lambda>c. c / s) cs) = 1"
    using s_pos by (simp add: s_def)
  have "np_sum (map Fin (map (\<lambda>c. c / s) cs)) = Fin 1"
    unfolding np_sum_def np_sum_Fin one by simp
  moreover have "list_all is_fin (map (\<lambda>c. Fin (log 2 (c / s))) cs)"
    by (simp add: list_all_iff)
  ultimately show ?thesis
    unfolding sum row normalized_row_def pw by simp
qed

lemma log_normalize_counts:
  assumes "list_all is_count row" and "row \<noteq> []"
  shows "normalized_row (log_normalize (map (\<lambda>x. fadd x (Fin 1)) row))"
proof -
  from count_row_add_one [OF assms(1)] obtain cs where
    cs: "map (\<lambda>x. fadd x (Fin 1)) row = map Fin cs" "\<forall>c \<in> set cs. 0 < c" "length cs = length row"
    by blast
  with assms(2) have "cs \<noteq> []" by auto
  from log_normalize_positive [OF cs(2) this] show ?thesis
    by (simp add: log_normalize_def Let_def cs(1))
qed

lemma map_log_normalize_counts:
  assumes "count_table a" and "\<forall>row \<in> set a. row \<noteq> []"
  shows "\<forall>row \<in> set (map log_normalize (add_one a)). normalized_row row"
  using assms log_normalize_counts
  by (auto simp: add_one_def count_table_def list_all_iff)

lemma log_normalize_all_counts:
  assumes "count_table [row]" and "row \<noteq> []"
  shows "\<forall>r \<in> set (log_normalize_all (add_one [row])). normalized_row r"
  using log_normalize_counts [of row] assms
  by (simp add: log_normalize_all_def log_normalize_def add_one_def count_table_def Let_def)

lemma map_err_Inr_all:
  assumes "map_err f xs = Inr ys" and "x \<in> set xs"
  shows "\<exists>y. f x = Inr y"
  using assms
  by (induction xs arbitrary: ys) (auto split: sum.splits)

lemma train_success_states:
  assumes "train h data = Inr h'"
  shows "states h \<noteq> []"
proof -
  from assms obtain ss where ss: "data2i_pairs h data = Inr ss"
    by (cases "data2i_pairs h data") (auto simp: train_def Let_def)
  then obtain p where p: "first_first data = Inr p"
    by (cases "first_first data") (auto simp: data2i_pairs_def)
  then obtain rest exs where data: "data = (p # rest) # exs"
    by (auto simp: first_first_def split: list.splits)
  from ss p have all: "map_err (map_err (encode_pair h)) data = Inr ss"
    by (simp add: data2i_pairs_def)
  from map_err_Inr_all [OF all, of "p # rest"] data
  obtain ys where "map_err (encode_pair h) (p # rest) = Inr ys" by auto
  from map_err_Inr_all [OF this, of p] obtain y where "encode_pair h p = Inr y" by auto
  then have "snd p \<in> dom (s2i h)"
    by (auto simp: encode_pair_def dict_get_def split: sum.splits option.splits)
  then show ?thesis
    by (auto simp: s2i_def dom_enumerate_dict)
qed

lemma shape_rows:
  assumes "shape a = replicate n m" and "row \<in> set a"
  shows "length row = m"
proof -
  from assms(2) have "length row \<in> set (shape a)" by (auto simp: shape_def)
  with assms(1) show ?thesis by (auto split: if_splits)
qed

lemma train_normalized_rows:
  assumes "well_shaped h" and "train h data = Inr h'"
  shows "\<forall>row \<in> set (init_prob h') \<union> set (emission_prob h') \<union> set (transition_prob h').
           normalized_row row"
proof -
  from assms(2) obtain ss where ss: "data2i_pairs h data = Inr ss"
    by (cases "data2i_pairs h data") (auto simp: train_def Let_def)
  obtain ip1 ep1 tp1 where
    cnt: "fold count_sentence ss (zero_fill (init_prob h), zero_fill (emission_prob h),
            zero_fill (transition_prob h)) = (ip1, ep1, tp1)"
    by (cases "fold count_sentence ss (zero_fill (init_prob h), zero_fill (emission_prob h),
            zero_fill (transition_prob h))") auto
  from assms(2) ss cnt have h': "h' = h\<lparr> init_prob := log_normalize_all (add_one ip1),
      emission_prob := map log_normalize (add_one ep1),
      transition_prob := map log_normalize (add_one tp1) \<rparr>"
    by (simp add: train_def Let_def)
  from fold_count_sentence_counts [OF cnt] have
    counts: "count_table ip1" "count_table ep1" "count_table tp1"
    by (simp_all add: count_table_zero_fill)
  from fold_count_sentence_shape [OF cnt] have
    shapes: "shape ip1 = shape (init_prob h)" "shape ep1 = shape (emission_prob h)"
      "shape tp1 = shape (transition_prob h)"
    by (simp_all add: shape_zero_fill)
  have S: "states h \<noteq> []"
    using assms(2) by (rule train_success_states)
  from assms(1) shapes have sh:
    "shape ip1 = replicate 1 (length (states h))"
    "shape ep1 = replicate (length (states h)) (length (emissions h))"
    "shape tp1 = replicate (length (states h)) (length (states h))"
    and V: "emissions h \<noteq> []"
    by (simp_all add: well_shaped_def)
  have ne_e: "\<forall>row \<in> set ep1. row \<noteq> []"
    using shape_rows [OF sh(2)] V by fastforce
  have ne_t: "\<forall>row \<in> set tp1. row \<noteq> []"
    using shape_rows [OF sh(3)] S by fastforce
  from sh(1) obtain row where ip1: "ip1 = [row]" and "length row = length (states h)"
    by (cases ip1) (auto simp: shape_def)
  with S have "row \<noteq> []" by auto
  from log_normalize_all_counts [OF _ this] counts(1) ip1
  have "\<forall>r \<in> set (log_normalize_all (add_one ip1)). normalized_row r" by simp
  with map_log_normalize_counts [OF counts(2) ne_e] map_log_normalize_counts [OF counts(3) ne_t]
  show ?thesis
    by (auto simp: h')
qed

lemma well_shaped_init: "well_shaped (HMM_init vocab sts)"
  by (simp add: well_shaped_def HMM_init_def Let_def np_zeros_def shape_def)

lemma well_shaped_train:
  assumes "well_shaped h" and "train h data = Inr h'"
  shows "well_shaped h'"
  using train_fields [OF assms(2)] assms(1) by (simp add: well_shaped_def)

subsection \<open>Properties of trained models\<close>

text \<open>
  Claim C6. For an \<^verbatim>\<open>HMM\<close> object (its tables have the shapes the constructor gave
  them) and a corpus on which \<^verbatim>\<open>train\<close> returns, calling \<^verbatim>\<open>train\<close> again on the
  object it left and the same corpus returns the very same object: the second call resets the
  counts and computes the same three tables.
\<close>

theorem train_idempotent:
  assumes "well_shaped h" and "train h data = Inr h1"
  shows "train h1 data = Inr h1"
proof -
  from train_fields [OF assms(2)] train_registry_only [of h1 h data h1] assms(2)
  show ?thesis by simp
qed

theorem train_idempotent_witness:
  "well_shaped (HMM_init tiny_vocab tiny_states)
   \<and> train (HMM_init tiny_vocab tiny_states) tiny_corpus = Inr tiny_model
   \<and> train tiny_model tiny_corpus = Inr tiny_model"
  using train_idempotent [OF well_shaped_init train_tiny] train_tiny well_shaped_init by simp

text \<open>
  Claim C4. In a model that \<^verbatim>\<open>train\<close> returns for a freshly constructed object and any
  corpus, there is at least one state, the three tables have the shapes \<open>1 \<times> S\<close>,
  \<open>S \<times> (V + 1)\<close> and \<open>S \<times> S\<close>, and every row of every table is normalised: all its
  entries are finite (no infinity, no NaN) and the powers \<open>2\<^sup>x\<close> of its entries sum to 1.
\<close>

theorem train_normalized:
  assumes "train (HMM_init vocab sts) data = Inr h"
  shows "sts \<noteq> []
         \<and> shape (init_prob h) = [length sts]
         \<and> shape (emission_prob h) = replicate (length sts) (Suc (length vocab))
         \<and> shape (transition_prob h) = replicate (length sts) (length sts)
         \<and> (\<forall>row \<in> set (init_prob h) \<union> set (emission_prob h) \<union> set (transition_prob h).
               normalized_row row)"
proof -
  have "states (HMM_init vocab sts) = sts" "length (emissions (HMM_init vocab sts)) = Suc (length vocab)"
    by (simp_all add: HMM_init_def Let_def)
  with train_success_states [OF assms] train_fields [OF assms]
    well_shaped_train [OF well_shaped_init assms]
    train_normalized_rows [OF well_shaped_init assms]
  show ?thesis
    by (simp add: well_shaped_def)
qed

theorem train_normalized_witness:
  "train (HMM_init tiny_vocab tiny_states) tiny_corpus = Inr tiny_model
   \<and> shape (emission_prob tiny_model) = [4, 4, 4]
   \<and> list_all normalized_row
        (init_prob tiny_model @ emission_prob tiny_model @ transition_prob tiny_model)"
  using train_normalized [OF train_tiny] train_tiny
  by (simp add: list_all_iff tiny_vocab_def tiny_states_def numeral_3_eq_3 Ball_def)

subsection \<open>The two Viterbi decoders fill the same tables\<close>

lemma argmax_scan_bound: "b < i \<Longrightarrow> argmax_scan ys i b bv < i + length ys"
proof (induction ys arbitrary: i b bv)
  case Nil
  then show ?case by simp
next
  case (Cons y ys)
  have 1: "argmax_scan ys (Suc i) i y < Suc i + length ys"
    by (rule Cons.IH) simp
  have 2: "argmax_scan ys (Suc i) b bv < Suc i + length ys"
    using Cons.prems by (intro Cons.IH) simp
  from 1 2 Cons.prems show ?case by simp
qed

lemma np_argmax_nonempty: "xs \<noteq> [] \<Longrightarrow> np_argmax xs = Inr (first_max xs)"
  by (cases xs) (simp_all add: np_argmax_def first_max_def)

lemma first_max_bound: "xs \<noteq> [] \<Longrightarrow> first_max xs < length xs"
  using argmax_scan_bound [of 0 1 "tl xs" "hd xs"] by (cases xs) (simp_all add: first_max_def)

lemma np_max_nonempty: "xs \<noteq> [] \<Longrightarrow> np_max xs = Inr (xs ! first_max xs)"
  by (simp add: np_max_def np_argmax_nonempty)

lemma fold_append_map: "fold (\<lambda>k x. x @ [f k]) ks acc = acc @ map f ks"
  by (induction ks arbitrary: acc) simp_all

lemma candidates_map:
  "candidates h ex trellis i j =
     map (\<lambda>k. fadd (fadd (trellis ! k ! (i - 1)) (transition_prob h ! k ! j))
                 (emission_prob h ! j ! (ex ! i))) [0..<length (states h)]"
  by (simp add: candidates_def fold_append_map)

lemma candidates_length: "length (candidates h ex trellis i j) = length (states h)"
  by (simp add: candidates_map)

lemma candidates_cong:
  assumes "\<forall>k < length (states h). t1 ! k ! (i - 1) = t2 ! k ! (i - 1)"
  shows "candidates h ex t1 i j = candidates h ex t2 i j"
  using assms by (simp add: candidates_map)

lemma fold_err_append:
  "fold_err f (xs @ ys) s = (case fold_err f xs s of Inl e \<Rightarrow> Inl e | Inr s' \<Rightarrow> fold_err f ys s')"
  by (induction xs arbitrary: s) (auto split: sum.splits)

lemma map_err_map:
  "(\<And>x. x \<in> set xs \<Longrightarrow> f x = Inr (g x)) \<Longrightarrow> map_err f xs = Inr (map g xs)"
  by (induction xs) simp_all

lemma set_cell_prefix:
  assumes "n < length a"
  shows "set_cell (map (\<lambda>j. if j < n then (a ! j)[i := v j] else a ! j) [0..<length a]) n i (v n)
         = map (\<lambda>j. if j < Suc n then (a ! j)[i := v j] else a ! j) [0..<length a]"
proof (rule nth_equalityI)
  show "length (set_cell (map (\<lambda>j. if j < n then (a ! j)[i := v j] else a ! j) [0..<length a]) n i (v n))
        = length (map (\<lambda>j. if j < Suc n then (a ! j)[i := v j] else a ! j) [0..<length a])"
    by (simp add: set_cell_def)
next
  fix k
  assume "k < length (set_cell (map (\<lambda>j. if j < n then (a ! j)[i := v j] else a ! j) [0..<length a]) n i (v n))"
  then have k: "k < length a" by (simp add: set_cell_def)
  show "set_cell (map (\<lambda>j. if j < n then (a ! j)[i := v j] else a ! j) [0..<length a]) n i (v n) ! k
        = map (\<lambda>j. if j < Suc n then (a ! j)[i := v j] else a ! j) [0..<length a] ! k"
  proof (cases "k = n")
    case True
    with assms show ?thesis by (simp add: set_cell_def)
  next
    case False
    with k assms show ?thesis by (simp add: set_cell_def less_Suc_eq)
  qed
qed

lemma prefix_column_unchanged:
  assumes "k < length a" and "c \<noteq> i"
  shows "map (\<lambda>j. if j < n then (a ! j)[i := v j] else a ! j) [0..<length a] ! k ! c = a ! k ! c"
  using assms by simp

text \<open>The loop over the destination states, after its first n rounds.\<close>

lemma viterbi_cells_prefix:
  assumes S: "states h \<noteq> []" and i: "0 < i" and n: "n \<le> length trellis"
    and len: "length trellis = length (states h)" "length back_pointers = length (states h)"
  shows "fold_err (viterbi_cell h ex i) [0..<n] (trellis, back_pointers)
         = Inr (map (\<lambda>j. if j < n then (trellis ! j)[i := candidates h ex trellis i j
                                   ! first_max (candidates h ex trellis i j)]
                          else trellis ! j) [0..<length trellis],
                map (\<lambda>j. if j < n then (back_pointers ! j)[i :=
                                   int (first_max (candidates h ex trellis i j))]
                          else back_pointers ! j) [0..<length back_pointers])"
  using n
proof (induction n)
  case 0
  then show ?case by (simp add: map_nth)
next
  case (Suc n)
  define m where "m = (\<lambda>j. candidates h ex trellis i j ! first_max (candidates h ex trellis i j))"
  define p where "p = (\<lambda>j. int (first_max (candidates h ex trellis i j)))"
  define t where "t = map (\<lambda>j. if j < n then (trellis ! j)[i := m j] else trellis ! j)
                        [0..<length trellis]"
  define b where "b = map (\<lambda>j. if j < n then (back_pointers ! j)[i := p j] else back_pointers ! j)
                        [0..<length back_pointers]"
  from Suc have IH: "fold_err (viterbi_cell h ex i) [0..<n] (trellis, back_pointers) = Inr (t, b)"
    by (simp add: t_def b_def m_def p_def)
  have "\<forall>k < length (states h). t ! k ! (i - 1) = trellis ! k ! (i - 1)"
    unfolding t_def using i len by (intro allI impI prefix_column_unchanged) simp_all
  then have same: "candidates h ex t i n = candidates h ex trellis i n"
    by (rule candidates_cong)
  have ne: "candidates h ex trellis i n \<noteq> []"
    using S candidates_length [of h ex trellis i n] by auto
  have cell: "viterbi_cell h ex i n (t, b) = Inr (set_cell t n i (m n), set_cell b n i (p n))"
    by (simp add: viterbi_cell_def same Let_def np_max_nonempty [OF ne] np_argmax_nonempty [OF ne]
        m_def p_def)
  have t': "set_cell t n i (m n)
    = map (\<lambda>j. if j < Suc n then (trellis ! j)[i := m j] else trellis ! j) [0..<length trellis]"
    unfolding t_def using Suc.prems by (intro set_cell_prefix) simp
  have b': "set_cell b n i (p n)
    = map (\<lambda>j. if j < Suc n then (back_pointers ! j)[i := p j] else back_pointers ! j)
        [0..<length back_pointers]"
    unfolding b_def using Suc.prems len by (intro set_cell_prefix) simp
  have "fold_err (viterbi_cell h ex i) [0..<Suc n] (trellis, back_pointers)
        = Inr (set_cell t n i (m n), set_cell b n i (p n))"
    by (simp add: fold_err_append IH cell)
  also have "\<dots> = Inr (map (\<lambda>j. if j < Suc n then (trellis ! j)[i := m j] else trellis ! j)
                          [0..<length trellis],
                       map (\<lambda>j. if j < Suc n then (back_pointers ! j)[i := p j]
                                else back_pointers ! j) [0..<length back_pointers])"
    by (simp only: t' b')
  finally show ?case
    unfolding m_def p_def .
qed

lemma set_column_nth:
  "length v = length a \<Longrightarrow> set_column a c v = map (\<lambda>j. (a ! j)[c := v ! j]) [0..<length a]"
  unfolding set_column_def by (rule nth_equalityI) simp_all

lemma viterbi_column_next:
  assumes "states h \<noteq> []" and "0 < i"
    and "length trellis = length (states h)" "length back_pointers = length (states h)"
  shows "viterbi_column h ex i (trellis, back_pointers) = Inr (next_column h ex i (trellis, back_pointers))"
proof -
  have "next_column h ex i (trellis, back_pointers)
        = (map (\<lambda>j. if j < length trellis
                      then (trellis ! j)[i := candidates h ex trellis i j
                                               ! first_max (candidates h ex trellis i j)]
                      else trellis ! j) [0..<length trellis],
           map (\<lambda>j. if j < length trellis
                      then (back_pointers ! j)[i := int (first_max (candidates h ex trellis i j))]
                      else back_pointers ! j) [0..<length back_pointers])"
    using assms(3,4) by (simp add: next_column_def set_column_nth)
  moreover have "viterbi_column h ex i (trellis, back_pointers)
        = fold_err (viterbi_cell h ex i) [0..<length trellis] (trellis, back_pointers)"
    by (simp add: viterbi_column_def assms(3))
  ultimately show ?thesis
    using viterbi_cells_prefix [OF assms(1,2) order_refl assms(3,4), of ex] by simp
qed

lemma column_nth_map: "column a c = map (\<lambda>k. a ! k ! c) [0..<length a]"
  unfolding column_def by (rule nth_equalityI) simp_all

lemma np_transpose_square:
  assumes "map length a = replicate n n" and "0 < n"
  shows "np_transpose a = map (column a) [0..<n]"
proof -
  from assms obtain row rest where a: "a = row # rest"
    by (cases a) auto
  with assms(1) have "length row = n"
    by (cases n) auto
  with a show ?thesis
    by (simp add: np_transpose_def)
qed

lemma prob_candidates:
  assumes tp: "map length (transition_prob h) = replicate (length (states h)) (length (states h))"
    and ep: "length (emission_prob h) = length (states h)"
    and tr: "length trellis = length (states h)"
    and S: "states h \<noteq> []"
  shows "add_column_vector
           (add_vector (column trellis (i - 1)) (np_transpose (transition_prob h)))
           (column (emission_prob h) (ex ! i))
         = map (candidates h ex trellis i) [0..<length (states h)]"
proof (rule nth_equalityI)
  have ltp: "length (transition_prob h) = length (states h)"
    using arg_cong [OF tp, of length] by simp
  have T: "np_transpose (transition_prob h) = map (column (transition_prob h)) [0..<length (states h)]"
    using np_transpose_square [OF tp] S by simp
  show len: "length (add_column_vector
           (add_vector (column trellis (i - 1)) (np_transpose (transition_prob h)))
           (column (emission_prob h) (ex ! i)))
        = length (map (candidates h ex trellis i) [0..<length (states h)])"
    by (simp add: add_column_vector_def add_vector_def T column_def ep)
  fix j
  assume "j < length (add_column_vector
           (add_vector (column trellis (i - 1)) (np_transpose (transition_prob h)))
           (column (emission_prob h) (ex ! i)))"
  with len have j: "j < length (states h)" by simp
  have row: "map2 fadd (column trellis (i - 1)) (column (transition_prob h) j)
             = map (\<lambda>k. fadd (trellis ! k ! (i - 1)) (transition_prob h ! k ! j))
                 [0..<length (states h)]"
    by (rule nth_equalityI) (simp_all add: column_def tr ltp)
  have "add_column_vector
           (add_vector (column trellis (i - 1)) (np_transpose (transition_prob h)))
           (column (emission_prob h) (ex ! i)) ! j
        = map (\<lambda>x. fadd x (emission_prob h ! j ! (ex ! i)))
            (map2 fadd (column trellis (i - 1)) (column (transition_prob h) j))"
    using j by (simp add: add_column_vector_def add_vector_def T column_def ep)
  also have "\<dots> = candidates h ex trellis i j"
    unfolding row candidates_map by simp
  finally show "add_column_vector
           (add_vector (column trellis (i - 1)) (np_transpose (transition_prob h)))
           (column (emission_prob h) (ex ! i)) ! j
        = map (candidates h ex trellis i) [0..<length (states h)] ! j"
    using j by simp
qed

lemma fast_viterbi_column_next:
  assumes tp: "map length (transition_prob h) = replicate (length (states h)) (length (states h))"
    and ep: "length (emission_prob h) = length (states h)"
    and tr: "length trellis = length (states h)"
    and S: "states h \<noteq> []"
  shows "fast_viterbi_column h ex i (trellis, back_pointers)
         = Inr (next_column h ex i (trellis, back_pointers))"
proof -
  define prob where "prob = map (candidates h ex trellis i) [0..<length (states h)]"
  have ne: "prob \<noteq> []" using S by (simp add: prob_def)
  have rows: "row \<noteq> []" if "row \<in> set prob" for row
  proof -
    from that obtain j where "row = candidates h ex trellis i j" by (auto simp: prob_def)
    with S candidates_length [of h ex trellis i j] show ?thesis by auto
  qed
  have mx: "reduce_axis1 np_max prob = Inr (map (\<lambda>x. x ! first_max x) prob)"
    using ne rows by (simp add: reduce_axis1_def map_err_map np_max_nonempty)
  have am: "reduce_axis1 np_argmax prob = Inr (map first_max prob)"
    using ne rows by (simp add: reduce_axis1_def map_err_map np_argmax_nonempty)
  have mx': "reduce_axis1 np_max (map (candidates h ex trellis i) [0..<length (states h)])
             = Inr (map (\<lambda>j. candidates h ex trellis i j ! first_max (candidates h ex trellis i j))
                      [0..<length (states h)])"
    using mx by (simp add: prob_def o_def)
  have am': "reduce_axis1 np_argmax (map (candidates h ex trellis i) [0..<length (states h)])
             = Inr (map (\<lambda>j. first_max (candidates h ex trellis i j)) [0..<length (states h)])"
    using am by (simp add: prob_def o_def)
  show ?thesis
    unfolding fast_viterbi_column_def prod.case prob_candidates [OF tp ep tr S] Let_def mx' am'
    by (simp add: next_column_def o_def)
qed

lemma replicate_rows:
  assumes "map length a = replicate n m"
  shows "length a = n" and "\<And>j. j < n \<Longrightarrow> length (a ! j) = m"
proof -
  show n: "length a = n" using arg_cong [OF assms, of length] by simp
  fix j assume "j < n"
  with n have "map length a ! j = length (a ! j)" by simp
  with assms \<open>j < n\<close> show "length (a ! j) = m" by simp
qed

lemma set_column_shape:
  assumes "map length a = replicate n m" and "length v = n"
  shows "map length (set_column a c v) = replicate n m"
proof (rule nth_equalityI)
  show "length (map length (set_column a c v)) = length (replicate n m)"
    using replicate_rows(1) [OF assms(1)] assms(2) by (simp add: set_column_def)
next
  fix j assume "j < length (map length (set_column a c v))"
  then have j: "j < n"
    using replicate_rows(1) [OF assms(1)] assms(2) by (simp add: set_column_def)
  then show "map length (set_column a c v) ! j = replicate n m ! j"
    using replicate_rows [OF assms(1)] assms(2) by (simp add: set_column_def)
qed

lemma set_column_entry:
  assumes "length a = n" and "length v = n" and "j < n"
  shows "set_column a c v ! j ! c' = (if c' = c \<and> c < length (a ! j) then v ! j else a ! j ! c')"
  using assms by (auto simp: set_column_def nth_list_update list_update_beyond not_less)

lemma filled_next_column:
  assumes f: "filled (length (states h)) T i tb" and i: "0 < i" "i < T" and S: "states h \<noteq> []"
  shows "filled (length (states h)) T (Suc i) (next_column h ex i tb)"
proof -
  obtain tr bp where tb: "tb = (tr, bp)" by (cases tb)
  let ?S = "length (states h)"
  from f tb have sh: "map length tr = replicate ?S T" "map length bp = replicate ?S T"
    and ok: "\<And>j c'. j < ?S \<Longrightarrow> 0 < c' \<Longrightarrow> c' < i \<Longrightarrow> 0 \<le> bp ! j ! c' \<and> bp ! j ! c' < int ?S"
    by (simp_all add: filled_def)
  define p where "p = map (\<lambda>j. int (first_max (candidates h ex tr i j))) [0..<?S]"
  define m where "m = map (\<lambda>j. candidates h ex tr i j ! first_max (candidates h ex tr i j)) [0..<?S]"
  have nc: "next_column h ex i tb = (set_column tr i m, set_column bp i p)"
    by (simp add: next_column_def tb p_def m_def)
  have lp: "length p = ?S" and lm: "length m = ?S" by (simp_all add: p_def m_def)
  have pj: "0 \<le> p ! j \<and> p ! j < int ?S" if "j < ?S" for j
  proof -
    have "candidates h ex tr i j \<noteq> []"
      using S candidates_length [of h ex tr i j] by auto
    from first_max_bound [OF this] that show ?thesis
      by (simp add: p_def candidates_length)
  qed
  have "0 \<le> set_column bp i p ! j ! c' \<and> set_column bp i p ! j ! c' < int ?S"
    if "j < ?S" "0 < c'" "c' < Suc i" for j c'
  proof (cases "c' = i")
    case True
    with that i replicate_rows [OF sh(2)] lp pj [OF that(1)] show ?thesis
      by (simp add: set_column_entry [of bp ?S])
  next
    case False
    with that have "c' < i" by simp
    with ok [OF that(1,2)] that False replicate_rows [OF sh(2)] lp show ?thesis
      by (simp add: set_column_entry [of bp ?S])
  qed
  with set_column_shape [OF sh(1) lm] set_column_shape [OF sh(2) lp] show ?thesis
    by (simp add: filled_def nc)
qed

lemma filled_lengths:
  assumes "filled S T c (tr, bp)"
  shows "length tr = S" and "length bp = S"
  using assms replicate_rows(1) by (auto simp: filled_def)

lemma shape_single:
  assumes "shape a = [n]"
  shows "length (a ! 0) = n"
  using assms by (cases a) (simp_all add: shape_def)

lemma filled_start:
  assumes "well_shaped h"
  shows "filled (length (states h)) (length ex) 1 (viterbi_start h ex)"
proof -
  let ?S = "length (states h)"
  from assms have ip: "length (init_prob h ! 0) = ?S"
    by (intro shape_single) (simp add: well_shaped_def)
  from assms have "map length (emission_prob h) = replicate ?S (length (emissions h))"
    by (simp add: well_shaped_def shape_def)
  from replicate_rows(1) [OF this] have ep: "length (emission_prob h) = ?S" .
  have v: "length (map2 fadd (init_prob h ! 0) (column (emission_prob h) (ex ! 0))) = ?S"
    by (simp add: ip ep column_def)
  have "map length (np_full ?S (length ex) NInf) = replicate ?S (length ex)"
    by (simp add: np_full_def)
  from set_column_shape [OF this v] show ?thesis
    by (simp add: filled_def viterbi_start_def Let_def np_full_def)
qed

lemma fold_err_upt_inv:
  assumes "a \<le> b" and "J a s"
    and step: "\<And>i s. a \<le> i \<Longrightarrow> i < b \<Longrightarrow> J i s \<Longrightarrow>
                 f i s = Inr (g i s) \<and> f' i s = Inr (g i s) \<and> J (Suc i) (g i s)"
  shows "\<exists>s'. fold_err f [a..<b] s = Inr s' \<and> fold_err f' [a..<b] s = Inr s' \<and> J b s'"
  using assms
proof (induction b)
  case 0
  then show ?case by simp
next
  case (Suc b)
  show ?case
  proof (cases "a = Suc b")
    case True
    with Suc.prems(2) show ?thesis by simp
  next
    case False
    with Suc.prems(1) have ab: "a \<le> b" by simp
    have "\<exists>s'. fold_err f [a..<b] s = Inr s' \<and> fold_err f' [a..<b] s = Inr s' \<and> J b s'"
      using ab Suc.prems(2) Suc.prems(3) by (intro Suc.IH) auto
    then obtain s' where s': "fold_err f [a..<b] s = Inr s'" "fold_err f' [a..<b] s = Inr s'" "J b s'"
      by blast
    from Suc.prems(3) [OF ab _ s'(3)] have
      "f b s' = Inr (g b s')" "f' b s' = Inr (g b s')" "J (Suc b) (g b s')"
      by simp_all
    with s' ab show ?thesis
      by (simp add: fold_err_append)
  qed
qed

lemma viterbi_fill_filled:
  assumes ws: "well_shaped h" and S: "states h \<noteq> []" and ex: "ex \<noteq> []"
  shows "\<exists>tb. viterbi_fill h ex = Inr tb \<and> fast_viterbi_fill h ex = Inr tb
              \<and> filled (length (states h)) (length ex) (length ex) tb"
  unfolding viterbi_fill_def fast_viterbi_fill_def
proof (rule fold_err_upt_inv [where g = "next_column h ex"
      and J = "filled (length (states h)) (length ex)"])
  show "1 \<le> length ex" using ex by (cases ex) simp_all
  show "filled (length (states h)) (length ex) 1 (viterbi_start h ex)"
    using ws by (rule filled_start)
next
  fix i s
  assume i: "1 \<le> i" "i < length ex" and f: "filled (length (states h)) (length ex) i s"
  obtain tr bp where s: "s = (tr, bp)" by (cases s)
  from ws have tp: "map length (transition_prob h) = replicate (length (states h)) (length (states h))"
    and "map length (emission_prob h) = replicate (length (states h)) (length (emissions h))"
    by (simp_all add: well_shaped_def shape_def)
  from replicate_rows(1) [OF this(2)] have ep: "length (emission_prob h) = length (states h)" .
  from f s have l: "length tr = length (states h)" "length bp = length (states h)"
    using filled_lengths by auto
  from i have "0 < i" by simp
  from viterbi_column_next [OF S this l] fast_viterbi_column_next [OF tp ep l(1) S]
    filled_next_column [OF f \<open>0 < i\<close> i(2) S]
  show "viterbi_column h ex i s = Inr (next_column h ex i s)
        \<and> fast_viterbi_column h ex i s = Inr (next_column h ex i s)
        \<and> filled (length (states h)) (length ex) (Suc i) (next_column h ex i s)"
    by (simp add: s)
qed

subsection \<open>Path extraction and the decoded words\<close>

lemma np_index_nat: "i < n \<Longrightarrow> np_index n (int i) = Inr i"
  by (simp add: np_index_def)

lemma walk_back_valid:
  assumes shape: "length bp = S"
    and ok: "\<And>j c. j < S \<Longrightarrow> 0 < c \<Longrightarrow> c < T \<Longrightarrow> 0 \<le> bp ! j ! c \<and> bp ! j ! c < int S"
    and out: "outp \<noteq> []" "length outp \<le> T" "\<forall>s \<in> set outp. 0 \<le> s \<and> s < int S"
  shows "\<exists>path. walk_back S T bp outp cols
                  = Inr (path, cols @ map (\<lambda>l. int T - int l) [length outp..<T])
               \<and> length path = T \<and> (\<forall>s \<in> set path. 0 \<le> s \<and> s < int S)"
  using out
proof (induction "T - length outp" arbitrary: outp cols)
  case 0
  then have "length outp = T" by simp
  with 0 show ?case by (simp add: walk_back.simps)
next
  case (Suc d)
  then have lt: "length outp < T" by simp
  define r where "r = nat (last outp)"
  define c where "c = T - length outp"
  from Suc.prems(1,3) have last: "0 \<le> last outp" "last outp < int S"
    using last_in_set [of outp] by auto
  then have r: "r < S" "last outp = int r" by (simp_all add: r_def)
  from lt Suc.prems(1) have c: "0 < c" "c < T" "int T - int (length outp) = int c"
    by (cases outp; simp add: c_def)+
  from ok [OF r(1) c(1,2)] have v: "0 \<le> bp ! r ! c" "bp ! r ! c < int S" by simp_all
  have get: "np_get2 S T bp (last outp) (int c) = Inr (bp ! r ! c)"
    by (simp add: np_get2_def r(2) np_index_nat r(1) c(2))
  have "\<exists>path. walk_back S T bp (outp @ [bp ! r ! c]) (cols @ [int c])
                  = Inr (path, (cols @ [int c]) @ map (\<lambda>l. int T - int l) [length (outp @ [bp ! r ! c])..<T])
               \<and> length path = T \<and> (\<forall>s \<in> set path. 0 \<le> s \<and> s < int S)"
    using Suc.hyps(2) lt Suc.prems(3) v by (intro Suc.hyps(1)) auto
  moreover have "[length outp..<T] = length outp # [Suc (length outp)..<T]"
    using lt by (simp add: upt_conv_Cons)
  ultimately show ?case
    using lt by (subst walk_back.simps) (simp add: get c(3))
qed

lemma cols_rev: "map (\<lambda>l. int T - int l) [1..<T] = map int (rev [1..<T])"
proof (rule nth_equalityI)
  show "length (map (\<lambda>l. int T - int l) [1..<T]) = length (map int (rev [1..<T]))" by simp
next
  fix i assume "i < length (map (\<lambda>l. int T - int l) [1..<T])"
  then have i: "i < T - 1" by simp
  then show "map (\<lambda>l. int T - int l) [1..<T] ! i = map int (rev [1..<T]) ! i"
    by (simp add: rev_nth)
qed

lemma list_get_last:
  assumes "row \<noteq> []"
  shows "list_get row (- 1) = Inr (last row)"
proof -
  from assms obtain ys y where row: "row = ys @ [y]"
    by (cases row rule: rev_cases) auto
  have "nat (int (length ys)) = length ys" by simp
  then show ?thesis
    by (simp add: list_get_def np_index_def row)
qed

lemma last_column:
  assumes "map length tr = replicate S T" and "0 < T"
  shows "map_err (\<lambda>row. list_get row (- 1)) tr = Inr (map last tr)"
proof (rule map_err_map)
  fix row assume "row \<in> set tr"
  then have "length row \<in> set (map length tr)" by auto
  with assms have "row \<noteq> []" by (auto split: if_splits)
  then show "list_get row (- 1) = Inr (last row)"
    by (rule list_get_last)
qed

lemma best_path_valid:
  assumes f: "filled S (length ex) (length ex) (tr, bp)" and S: "0 < S" and ex: "ex \<noteq> []"
  shows "\<exists>lp path. best_path tr bp ex = Inr (lp, path, map int (rev [1..<length ex]))
           \<and> length path = length ex \<and> (\<forall>s \<in> set path. 0 \<le> s \<and> s < int S)"
proof -
  let ?T = "length ex"
  from f have sh: "map length tr = replicate S ?T" "map length bp = replicate S ?T"
    and ok: "\<And>j c. j < S \<Longrightarrow> 0 < c \<Longrightarrow> c < ?T \<Longrightarrow> 0 \<le> bp ! j ! c \<and> bp ! j ! c < int S"
    by (simp_all add: filled_def)
  from ex have T: "0 < ?T" by simp
  have final: "map_err (\<lambda>row. list_get row (- 1)) tr = Inr (map last tr)"
    using sh(1) T by (rule last_column)
  have ne: "map last tr \<noteq> []"
    using replicate_rows(1) [OF sh(1)] S by auto
  have s: "first_max (map last tr) < S"
    using first_max_bound [OF ne] replicate_rows(1) [OF sh(1)] by simp
  have "\<exists>path. walk_back S ?T bp [int (first_max (map last tr))] []
                  = Inr (path, [] @ map (\<lambda>l. int ?T - int l) [length [int (first_max (map last tr))]..<?T])
               \<and> length path = ?T \<and> (\<forall>s \<in> set path. 0 \<le> s \<and> s < int S)"
    using replicate_rows(1) [OF sh(2)] ok T s by (intro walk_back_valid) (simp_all add: Suc_le_eq)
  then obtain path where
    path: "walk_back S ?T bp [int (first_max (map last tr))] [] = Inr (path, map int (rev [1..<?T]))"
      "length path = ?T" "\<forall>s \<in> set path. 0 \<le> s \<and> s < int S"
    using cols_rev [of "length ex"] by auto
  have "best_path tr bp ex = Inr (map last tr ! first_max (map last tr), rev path, map int (rev [1..<?T]))"
    using replicate_rows(1) [OF sh(2)] path(1)
    by (simp add: best_path_def final np_max_nonempty [OF ne] np_argmax_nonempty [OF ne])
  with path(2,3) show ?thesis by simp
qed

lemma encode_word_total:
  assumes "UNK \<in> set (emissions h)"
  shows "\<exists>i. encode_word h w = Inr i \<and> i < length (emissions h)
             \<and> emissions h ! i = (if w \<in> set (emissions h) then w else UNK)"
proof -
  define k where "k = (if w \<in> set (emissions h) then w else UNK)"
  have k: "k \<in> set (emissions h)" using assms by (simp add: k_def)
  have "encode_word h w = encode_word h k"
    using assms by (simp add: encode_word_def w2i_def dom_enumerate_dict k_def)
  with encode_word_known [OF k] show ?thesis
    by (simp add: k_def)
qed

lemma encode_sentence_total:
  assumes "UNK \<in> set (emissions h)" and "ex \<noteq> []"
  shows "\<exists>ids. encode_sentence h ex = Inr ids \<and> length ids = length ex
           \<and> (\<forall>i \<in> set ids. i < length (emissions h))
           \<and> map (\<lambda>i. emissions h ! i) ids
               = map (\<lambda>w. if w \<in> set (emissions h) then w else UNK) ex"
proof -
  define g where "g = (\<lambda>w. projr (encode_word h w))"
  have enc: "encode_word h w = Inr (g w)" for w
    using encode_word_total [OF assms(1), of w] by (auto simp: g_def)
  have "map_err (encode_word h) ex = Inr (map g ex)"
    by (rule map_err_map) (rule enc)
  then have "encode_sentence h ex = Inr (map g ex)"
    using assms(2)
    by (cases ex) (simp_all add: encode_sentence_def data2i_words_def first_first_def list_get_def
        np_index_def)
  moreover have "g w < length (emissions h)
    \<and> emissions h ! g w = (if w \<in> set (emissions h) then w else UNK)" for w
    using encode_word_total [OF assms(1), of w] enc [of w] by auto
  ultimately show ?thesis
    by (intro exI [of _ "map g ex"]) (simp add: o_def)
qed

lemma map_err_zip:
  assumes "length xs = length ys"
    and "\<And>x y. (x, y) \<in> set (zip xs ys) \<Longrightarrow> \<exists>b. f (x, y) = Inr (a x, b)"
  shows "\<exists>out. map_err f (zip xs ys) = Inr out \<and> map fst out = map a xs"
  using assms
proof (induction xs ys rule: list_induct2)
  case Nil
  then show ?case by simp
next
  case (Cons x xs y ys)
  from Cons.prems [of x y] obtain b where b: "f (x, y) = Inr (a x, b)" by auto
  have "\<exists>out. map_err f (zip xs ys) = Inr out \<and> map fst out = map a xs"
    using Cons.prems by (intro Cons.IH) auto
  then obtain out where "map_err f (zip xs ys) = Inr out" "map fst out = map a xs" by blast
  with b show ?case by simp
qed

lemma tag_pairs_words:
  assumes len: "length path = length ids"
    and ids: "\<forall>i \<in> set ids. i < length (emissions h)"
    and path: "\<forall>s \<in> set path. 0 \<le> s \<and> s < int (length (states h))"
  shows "\<exists>out. tag_pairs h ids path = Inr out \<and> map fst out = map (\<lambda>i. emissions h ! i) ids"
  unfolding tag_pairs_def
proof (rule map_err_zip)
  show "length ids = length path" using len by simp
next
  fix i s assume "(i, s) \<in> set (zip ids path)"
  then have "i \<in> set ids" "s \<in> set path" by (auto dest: set_zip_leftD set_zip_rightD)
  with ids path have "i < length (emissions h)" "0 \<le> s" "s < int (length (states h))" by auto
  then show "\<exists>b. tag_pair h (i, s) = Inr (emissions h ! i, b)"
    by (simp add: tag_pair_def list_get_def np_index_def i2w_def i2s_def)
qed

lemma well_shaped_UNK: "well_shaped h \<Longrightarrow> UNK \<in> set (emissions h)"
  using last_in_set [of "emissions h"] by (auto simp: well_shaped_def)

text \<open>Both Viterbi decoders on a well-shaped model with at least one state.\<close>

lemma viterbi_decode_total:
  assumes ws: "well_shaped h" and S: "states h \<noteq> []" and ex: "ex \<noteq> []"
  shows "\<exists>ids tr bp lp path out.
           encode_sentence h ex = Inr ids \<and> length ids = length ex
           \<and> viterbi_fill h ids = Inr (tr, bp) \<and> fast_viterbi_fill h ids = Inr (tr, bp)
           \<and> best_path tr bp ids = Inr (lp, path, map int (rev [1..<length ex]))
           \<and> length path = length ex
           \<and> (\<forall>s \<in> set path. 0 \<le> s \<and> s < int (length (states h)))
           \<and> viterbi_decode h ex = Inr (out, lp) \<and> fast_viterbi_decode h ex = Inr (out, lp)
           \<and> map fst out = map (\<lambda>w. if w \<in> set (emissions h) then w else UNK) ex"
proof -
  from encode_sentence_total [OF well_shaped_UNK [OF ws] ex] obtain ids where
    ids: "encode_sentence h ex = Inr ids" "length ids = length ex"
      "\<forall>i \<in> set ids. i < length (emissions h)"
      "map (\<lambda>i. emissions h ! i) ids = map (\<lambda>w. if w \<in> set (emissions h) then w else UNK) ex"
    by blast
  from ids(2) ex have ne: "ids \<noteq> []" by auto
  from viterbi_fill_filled [OF ws S ne] obtain tr bp where
    fill: "viterbi_fill h ids = Inr (tr, bp)" "fast_viterbi_fill h ids = Inr (tr, bp)"
      "filled (length (states h)) (length ids) (length ids) (tr, bp)"
    by auto
  from S have "0 < length (states h)" by simp
  from best_path_valid [OF fill(3) this ne] obtain lp path where
    bp: "best_path tr bp ids = Inr (lp, path, map int (rev [1..<length ids]))"
      "length path = length ids" "\<forall>s \<in> set path. 0 \<le> s \<and> s < int (length (states h))"
    by blast
  from tag_pairs_words [OF bp(2) ids(3) bp(3)] obtain out where
    out: "tag_pairs h ids path = Inr out" "map fst out = map (\<lambda>i. emissions h ! i) ids"
    by blast
  have "viterbi_decode h ex = Inr (out, lp)" "fast_viterbi_decode h ex = Inr (out, lp)"
    by (simp_all add: viterbi_decode_def fast_viterbi_decode_def ids(1) fill extract_output_def
        bp(1) out(1))
  with ids fill bp out show ?thesis
    by (auto simp: ids(2))
qed

lemma greedy_step_valid:
  assumes ep: "length (emission_prob h) = length (states h)"
    and tp: "map length (transition_prob h) = replicate (length (states h)) (length (states h))"
    and S: "states h \<noteq> []"
    and sd: "map length sd = [length (states h)]"
    and out: "\<forall>s \<in> set out. s < length (states h)"
  shows "\<exists>sd' s lp'. greedy_step h w (sd, out, lp) = Inr (sd', out @ [s], lp')
           \<and> map length sd' = [length (states h)] \<and> s < length (states h)"
proof -
  from sd obtain row where row: "sd = [row]" "length row = length (states h)"
    by (cases sd) auto
  define x where "x = map2 fadd row (column (emission_prob h) w)"
  have lx: "length x = length (states h)"
    by (simp add: x_def row(2) column_def ep)
  with S have ne: "x \<noteq> []" by auto
  from first_max_bound [OF ne] lx have s: "first_max x < length (states h)" by simp
  from replicate_rows(2) [OF tp s] have "length (transition_prob h ! first_max x) = length (states h)" .
  then show ?thesis
    using s by (simp add: greedy_step_def row(1) x_def [symmetric] np_argmax_nonempty [OF ne]
        np_max_nonempty [OF ne])
qed

lemma greedy_fold_valid:
  assumes ep: "length (emission_prob h) = length (states h)"
    and tp: "map length (transition_prob h) = replicate (length (states h)) (length (states h))"
    and S: "states h \<noteq> []"
    and sd: "map length sd = [length (states h)]"
    and out: "\<forall>s \<in> set out. s < length (states h)"
  shows "\<exists>sd' out' lp'. fold_err (greedy_step h) ids (sd, out, lp) = Inr (sd', out', lp')
           \<and> length out' = length out + length ids \<and> (\<forall>s \<in> set out'. s < length (states h))"
  using sd out
proof (induction ids arbitrary: sd out lp)
  case Nil
  then show ?case by simp
next
  case (Cons w ids)
  from greedy_step_valid [OF ep tp S Cons.prems, of w lp] obtain sd1 s lp1 where
    step: "greedy_step h w (sd, out, lp) = Inr (sd1, out @ [s], lp1)"
      "map length sd1 = [length (states h)]" "s < length (states h)"
    by (elim exE conjE)
  have "\<exists>sd' out' lp'. fold_err (greedy_step h) ids (sd1, out @ [s], lp1) = Inr (sd', out', lp')
           \<and> length out' = length (out @ [s]) + length ids
           \<and> (\<forall>s \<in> set out'. s < length (states h))"
    using step(2,3) Cons.prems(2) by (intro Cons.IH) auto
  with step(1) show ?case by auto
qed

lemma greedy_decode_total:
  assumes ws: "well_shaped h" and S: "states h \<noteq> []" and ex: "ex \<noteq> []"
  shows "\<exists>out lp. greedy_decode h ex = Inr (out, lp)
           \<and> map fst out = map (\<lambda>w. if w \<in> set (emissions h) then w else UNK) ex"
proof -
  from encode_sentence_total [OF well_shaped_UNK [OF ws] ex] obtain ids where
    ids: "encode_sentence h ex = Inr ids" "length ids = length ex"
      "\<forall>i \<in> set ids. i < length (emissions h)"
      "map (\<lambda>i. emissions h ! i) ids = map (\<lambda>w. if w \<in> set (emissions h) then w else UNK) ex"
    by blast
  from ws have tp: "map length (transition_prob h) = replicate (length (states h)) (length (states h))"
    and "map length (emission_prob h) = replicate (length (states h)) (length (emissions h))"
    and ip: "map length (init_prob h) = [length (states h)]"
    by (simp_all add: well_shaped_def shape_def)
  from replicate_rows(1) [OF this(2)] have ep: "length (emission_prob h) = length (states h)" .
  from greedy_fold_valid [OF ep tp S ip, of "[]" ids "Fin 0"] obtain sd path lp where
    run: "fold_err (greedy_step h) ids (init_prob h, [], Fin 0) = Inr (sd, path, lp)"
      "length path = length ids" "\<forall>s \<in> set path. s < length (states h)"
    by auto
  have "\<exists>out. tag_pairs h ids (map int path) = Inr out \<and> map fst out = map (\<lambda>i. emissions h ! i) ids"
    using run(2,3) ids(3) by (intro tag_pairs_words) auto
  then obtain out where
    out: "tag_pairs h ids (map int path) = Inr out" "map fst out = map (\<lambda>i. emissions h ! i) ids"
    by blast
  have "greedy_decode h ex = Inr (out, lp)"
    by (simp add: greedy_decode_def ids(1) run(1) out(1))
  with out(2) ids(4) show ?thesis by simp
qed

lemma trained_well_shaped:
  assumes "train (HMM_init vocab sts) data = Inr h"
  shows "well_shaped h" and "states h \<noteq> []" and "states h = sts" and "emissions h = vocab @ [UNK]"
proof -
  show "well_shaped h"
    using well_shaped_init assms by (rule well_shaped_train)
  from train_success_states [OF assms] train_fields [OF assms]
  show "states h \<noteq> []" "states h = sts" "emissions h = vocab @ [UNK]"
    by (simp_all add: HMM_init_def Let_def)
qed

subsection \<open>The tie-break of argmax\<close>

text \<open>
  On finite entries \<^verbatim>\<open>np.argmax\<close> returns the first position of the maximum: nothing is
  greater than the entry it points to and everything before it is strictly less. Both
  Viterbi decoders and path extraction choose states with it, so ties go to the lowest state
  id.
\<close>

lemma argmax_scan_first:
  assumes "b < i" and "length pre = i" and "pre ! b = v"
    and "\<forall>j < i. pre ! j \<le> v" and "\<forall>j < b. pre ! j < v"
  shows "argmax_scan (map Fin ys) i b (Fin v) < length (pre @ ys)
         \<and> (\<forall>j < length (pre @ ys).
               (pre @ ys) ! j \<le> (pre @ ys) ! argmax_scan (map Fin ys) i b (Fin v))
         \<and> (\<forall>j < argmax_scan (map Fin ys) i b (Fin v).
               (pre @ ys) ! j < (pre @ ys) ! argmax_scan (map Fin ys) i b (Fin v))"
  using assms
proof (induction ys arbitrary: pre i b v)
  case Nil
  then show ?case by simp
next
  case (Cons y ys)
  show ?case
  proof (cases "v < y")
    case True
    have "argmax_scan (map Fin ys) (Suc i) i (Fin y) < length ((pre @ [y]) @ ys)
         \<and> (\<forall>j < length ((pre @ [y]) @ ys).
               ((pre @ [y]) @ ys) ! j \<le> ((pre @ [y]) @ ys) ! argmax_scan (map Fin ys) (Suc i) i (Fin y))
         \<and> (\<forall>j < argmax_scan (map Fin ys) (Suc i) i (Fin y).
               ((pre @ [y]) @ ys) ! j < ((pre @ [y]) @ ys) ! argmax_scan (map Fin ys) (Suc i) i (Fin y))"
    proof (rule Cons.IH)
      show "i < Suc i" by simp
      show "length (pre @ [y]) = Suc i" using Cons.prems(2) by simp
      show "(pre @ [y]) ! i = y" using Cons.prems(2) [symmetric] by simp
      show "\<forall>j < Suc i. (pre @ [y]) ! j \<le> y"
        using Cons.prems(2,4) True by (auto simp: nth_append less_Suc_eq intro: order_trans less_imp_le)
      show "\<forall>j < i. (pre @ [y]) ! j < y"
        using Cons.prems(2,4) True by (auto simp: nth_append intro: le_less_trans)
    qed
    with True show ?thesis by simp
  next
    case False
    have "argmax_scan (map Fin ys) (Suc i) b (Fin v) < length ((pre @ [y]) @ ys)
         \<and> (\<forall>j < length ((pre @ [y]) @ ys).
               ((pre @ [y]) @ ys) ! j \<le> ((pre @ [y]) @ ys) ! argmax_scan (map Fin ys) (Suc i) b (Fin v))
         \<and> (\<forall>j < argmax_scan (map Fin ys) (Suc i) b (Fin v).
               ((pre @ [y]) @ ys) ! j < ((pre @ [y]) @ ys) ! argmax_scan (map Fin ys) (Suc i) b (Fin v))"
    proof (rule Cons.IH)
      show "b < Suc i" using Cons.prems(1) by simp
      show "length (pre @ [y]) = Suc i" using Cons.prems(2) by simp
      show "(pre @ [y]) ! b = v" using Cons.prems(1,2,3) by (simp add: nth_append)
      show "\<forall>j < Suc i. (pre @ [y]) ! j \<le> v"
        using Cons.prems(2,4) False by (auto simp: nth_append less_Suc_eq)
      show "\<forall>j < b. (pre @ [y]) ! j < v"
        using Cons.prems(1,2,5) by (auto simp: nth_append)
    qed
    with False show ?thesis by simp
  qed
qed

lemma np_argmax_first_occurrence:
  assumes "xs \<noteq> []"
  shows "\<exists>r. np_argmax (map Fin xs) = Inr r \<and> r < length xs
             \<and> (\<forall>j < length xs. xs ! j \<le> xs ! r) \<and> (\<forall>j < r. xs ! j < xs ! r)"
proof -
  from assms obtain x ys where xs: "xs = x # ys" by (cases xs) auto
  from argmax_scan_first [of 0 1 "[x]" x ys] show ?thesis
    by (simp add: xs np_argmax_def)
qed

subsection \<open>The Viterbi recurrence\<close>

lemma recurrence_start:
  assumes "well_shaped h" and "ex \<noteq> []"
  shows "recurrence h ex 1 (viterbi_start h ex)"
proof -
  let ?S = "length (states h)"
  let ?v = "map2 fadd (init_prob h ! 0) (column (emission_prob h) (ex ! 0))"
  from assms(1) have ip: "length (init_prob h ! 0) = ?S"
    by (intro shape_single) (simp add: well_shaped_def)
  from assms(1) have "map length (emission_prob h) = replicate ?S (length (emissions h))"
    by (simp add: well_shaped_def shape_def)
  from replicate_rows(1) [OF this] have ep: "length (emission_prob h) = ?S" .
  have v: "length ?v = ?S"
    by (simp add: ip ep column_def)
  have "column (set_column (np_full ?S (length ex) NInf) 0 ?v) 0 = ?v"
    using v assms(2) by (intro nth_equalityI) (simp_all add: column_def set_column_def np_full_def)
  then show ?thesis
    by (simp add: recurrence_def viterbi_start_def Let_def)
qed

lemma recurrence_next_column:
  assumes f: "filled (length (states h)) T i tb" and r: "recurrence h ex i tb"
    and i: "0 < i" "i < T"
  shows "recurrence h ex (Suc i) (next_column h ex i tb)"
proof -
  obtain tr bp where tb: "tb = (tr, bp)" by (cases tb)
  let ?S = "length (states h)"
  define m where "m = map (\<lambda>j. candidates h ex tr i j ! first_max (candidates h ex tr i j)) [0..<?S]"
  define p where "p = map (\<lambda>j. int (first_max (candidates h ex tr i j))) [0..<?S]"
  define tr' where "tr' = set_column tr i m"
  define bp' where "bp' = set_column bp i p"
  have nc: "next_column h ex i tb = (tr', bp')"
    by (simp add: next_column_def tb m_def p_def tr'_def bp'_def)
  from f tb have sh: "map length tr = replicate ?S T" "map length bp = replicate ?S T"
    by (simp_all add: filled_def)
  note ltr = replicate_rows [OF sh(1)] and lbp = replicate_rows [OF sh(2)]
  have lm: "length m = ?S" and lp: "length p = ?S" by (simp_all add: m_def p_def)
  have tr'_entry: "tr' ! j ! c = (if c = i then m ! j else tr ! j ! c)" if "j < ?S" for j c
    using that ltr lm i by (simp add: tr'_def set_column_entry [of tr ?S])
  have bp'_entry: "bp' ! j ! c = (if c = i then p ! j else bp ! j ! c)" if "j < ?S" for j c
    using that lbp lp i by (simp add: bp'_def set_column_entry [of bp ?S])
  have cand: "candidates h ex tr' c j = candidates h ex tr c j" if "0 < c" "c \<le> i" for c j
  proof (rule candidates_cong, intro allI impI)
    fix k assume "k < ?S"
    moreover from that have "c - 1 \<noteq> i" by arith
    ultimately show "tr' ! k ! (c - 1) = tr ! k ! (c - 1)"
      by (simp add: tr'_entry)
  qed
  have col0: "column tr' 0 = column tr 0"
    using i ltr(1) lm
    by (intro nth_equalityI) (simp_all add: column_def tr'_def set_column_def)
  from r tb have r0: "column tr 0 = map2 fadd (init_prob h ! 0) (column (emission_prob h) (ex ! 0))"
    and rc: "\<And>c j. 0 < c \<Longrightarrow> c < i \<Longrightarrow> j < ?S \<Longrightarrow>
               tr ! j ! c = candidates h ex tr c j ! first_max (candidates h ex tr c j)
               \<and> bp ! j ! c = int (first_max (candidates h ex tr c j))"
    by (simp_all add: recurrence_def)
  have "tr' ! j ! c = candidates h ex tr' c j ! first_max (candidates h ex tr' c j)
        \<and> bp' ! j ! c = int (first_max (candidates h ex tr' c j))"
    if "0 < c" "c < Suc i" "j < ?S" for c j
  proof (cases "c = i")
    case True
    with that show ?thesis
      by (simp add: tr'_entry bp'_entry cand m_def p_def)
  next
    case False
    with that have "c < i" by simp
    with rc [OF that(1) this that(3)] that False show ?thesis
      by (simp add: tr'_entry bp'_entry cand)
  qed
  with r0 col0 show ?thesis
    by (simp add: recurrence_def nc)
qed

lemma is_fin_fadd: "is_fin a \<Longrightarrow> is_fin b \<Longrightarrow> is_fin (fadd a b)"
  by (cases a; cases b) simp_all

lemma finite_rows_nth:
  assumes "list_all (list_all is_fin) a" and "j < length a" and "c < length (a ! j)"
  shows "is_fin (a ! j ! c)"
  using assms by (simp add: list_all_length)

lemma candidates_finite:
  assumes tp: "list_all (list_all is_fin) (transition_prob h)"
      "map length (transition_prob h) = replicate (length (states h)) (length (states h))"
    and ep: "list_all (list_all is_fin) (emission_prob h)"
      "map length (emission_prob h) = replicate (length (states h)) (length (emissions h))"
    and w: "ex ! i < length (emissions h)" and j: "j < length (states h)"
    and prev: "\<forall>k < length (states h). is_fin (trellis ! k ! (i - 1))"
  shows "list_all is_fin (candidates h ex trellis i j)"
proof -
  have "is_fin (transition_prob h ! k ! j)" if "k < length (states h)" for k
    using that j replicate_rows [OF tp(2)] by (intro finite_rows_nth [OF tp(1)]) simp_all
  moreover have "is_fin (emission_prob h ! j ! (ex ! i))"
    using j w replicate_rows [OF ep(2)] by (intro finite_rows_nth [OF ep(1)]) simp_all
  ultimately show ?thesis
    using prev by (simp add: candidates_map list_all_iff is_fin_fadd)
qed

lemma first_max_tie_break:
  assumes "list_all is_fin c" and "c \<noteq> []"
  shows "(\<forall>k < length c. \<not> fgt (c ! k) (c ! first_max c))
         \<and> (\<forall>k < first_max c. fgt (c ! first_max c) (c ! k))"
proof -
  have "\<exists>xs. c = map Fin xs"
    using assms(1)
  proof (induction c)
    case Nil
    then show ?case by simp
  next
    case (Cons a c)
    then obtain xs where "c = map Fin xs" by auto
    moreover from Cons.prems obtain x where "a = Fin x" by (cases a) simp_all
    ultimately show ?case by (intro exI [of _ "x # xs"]) simp
  qed
  then obtain xs where c: "c = map Fin xs" by blast
  with assms(2) have ne: "xs \<noteq> []" by auto
  from np_argmax_first_occurrence [OF ne] np_argmax_nonempty [OF assms(2)] c
  have r: "first_max c < length xs" "\<forall>j < length xs. xs ! j \<le> xs ! first_max c"
    "\<forall>j < first_max c. xs ! j < xs ! first_max c"
    by auto
  then show ?thesis
    by (auto simp: c not_less)
qed

lemma finite_below_start:
  assumes ws: "well_shaped h"
    and ip: "list_all (list_all is_fin) (init_prob h)"
    and ep: "list_all (list_all is_fin) (emission_prob h)"
    and w: "ex ! 0 < length (emissions h)" and ex: "ex \<noteq> []"
  shows "finite_below (length (states h)) 1 (viterbi_start h ex)"
proof -
  let ?S = "length (states h)"
  let ?v = "map2 fadd (init_prob h ! 0) (column (emission_prob h) (ex ! 0))"
  from ws have "shape (init_prob h) = [?S]" by (simp add: well_shaped_def)
  then have ip0: "length (init_prob h ! 0) = ?S" "0 < length (init_prob h)"
    by (cases "init_prob h"; simp add: shape_def)+
  from ws have sh: "map length (emission_prob h) = replicate ?S (length (emissions h))"
    by (simp add: well_shaped_def shape_def)
  note lep = replicate_rows [OF sh]
  have v: "length ?v = ?S"
    by (simp add: ip0 lep column_def)
  have vj: "is_fin (?v ! j)" if "j < ?S" for j
  proof -
    have "is_fin (init_prob h ! 0 ! j)"
      using that ip0 by (intro finite_rows_nth [OF ip]) simp_all
    moreover have "is_fin (emission_prob h ! j ! (ex ! 0))"
      using that w lep by (intro finite_rows_nth [OF ep]) simp_all
    ultimately show ?thesis
      using that ip0 lep by (simp add: column_def is_fin_fadd)
  qed
  have "viterbi_start h ex = (set_column (np_full ?S (length ex) NInf) 0 ?v,
          np_full ?S (length ex) (- 1))"
    by (simp add: viterbi_start_def Let_def)
  moreover have "set_column (np_full ?S (length ex) NInf) 0 ?v ! j ! 0 = ?v ! j" if "j < ?S" for j
    using that v ex by (simp add: set_column_entry [of _ ?S] np_full_def)
  ultimately show ?thesis
    using vj by (simp add: finite_below_def)
qed

lemma finite_below_next_column:
  assumes f: "filled (length (states h)) T i tb" and fin: "finite_below (length (states h)) i tb"
    and i: "0 < i" "i < T" and S: "states h \<noteq> []"
    and tp: "list_all (list_all is_fin) (transition_prob h)"
      "map length (transition_prob h) = replicate (length (states h)) (length (states h))"
    and ep: "list_all (list_all is_fin) (emission_prob h)"
      "map length (emission_prob h) = replicate (length (states h)) (length (emissions h))"
    and w: "ex ! i < length (emissions h)"
  shows "finite_below (length (states h)) (Suc i) (next_column h ex i tb)"
proof -
  obtain tr bp where tb: "tb = (tr, bp)" by (cases tb)
  let ?S = "length (states h)"
  define m where "m = map (\<lambda>j. candidates h ex tr i j ! first_max (candidates h ex tr i j)) [0..<?S]"
  from f tb have sh: "map length tr = replicate ?S T"
    by (simp add: filled_def)
  note ltr = replicate_rows [OF sh]
  have lm: "length m = ?S" by (simp add: m_def)
  from fin tb have old: "\<And>j c. j < ?S \<Longrightarrow> c < i \<Longrightarrow> is_fin (tr ! j ! c)"
    by (simp add: finite_below_def)
  have mj: "is_fin (m ! j)" if "j < ?S" for j
  proof -
    have "\<forall>k < ?S. is_fin (tr ! k ! (i - 1))"
      using old i by simp
    from candidates_finite [OF tp ep w that this]
    have all: "list_all is_fin (candidates h ex tr i j)" .
    have "candidates h ex tr i j \<noteq> []"
      using S candidates_length [of h ex tr i j] by auto
    from first_max_bound [OF this] all that show ?thesis
      by (simp add: m_def list_all_length)
  qed
  have "is_fin (set_column tr i m ! j ! c)" if "j < ?S" "c < Suc i" for j c
    using that ltr lm i mj old by (cases "c = i") (simp_all add: set_column_entry [of tr ?S])
  then show ?thesis
    by (simp add: finite_below_def next_column_def tb m_def)
qed

lemma trained_finite_tables:
  assumes "train (HMM_init vocab sts) data = Inr h"
  shows "list_all (list_all is_fin) (init_prob h)"
    and "list_all (list_all is_fin) (emission_prob h)"
    and "list_all (list_all is_fin) (transition_prob h)"
  using train_normalized_rows [OF well_shaped_init assms]
  by (auto simp: list_all_iff normalized_row_def)

lemma viterbi_fill_recurrence:
  assumes ws: "well_shaped h" and S: "states h \<noteq> []" and ex: "ex \<noteq> []"
    and ip: "list_all (list_all is_fin) (init_prob h)"
    and ep: "list_all (list_all is_fin) (emission_prob h)"
    and tp: "list_all (list_all is_fin) (transition_prob h)"
    and ids: "\<forall>i < length ex. ex ! i < length (emissions h)"
  shows "\<exists>tb. viterbi_fill h ex = Inr tb \<and> fast_viterbi_fill h ex = Inr tb
              \<and> (filled (length (states h)) (length ex) (length ex) tb
                 \<and> recurrence h ex (length ex) tb
                 \<and> finite_below (length (states h)) (length ex) tb)"
  unfolding viterbi_fill_def fast_viterbi_fill_def
proof (rule fold_err_upt_inv [where g = "next_column h ex"
      and J = "\<lambda>i s. filled (length (states h)) (length ex) i s \<and> recurrence h ex i s
                     \<and> finite_below (length (states h)) i s"])
  from ex have T: "0 < length ex" by simp
  then show "1 \<le> length ex" by (simp add: Suc_le_eq)
  from ids T have "ex ! 0 < length (emissions h)" by simp
  with filled_start [OF ws] recurrence_start [OF ws ex] finite_below_start [OF ws ip ep _ ex]
  show "filled (length (states h)) (length ex) 1 (viterbi_start h ex)
        \<and> recurrence h ex 1 (viterbi_start h ex)
        \<and> finite_below (length (states h)) 1 (viterbi_start h ex)"
    by simp
next
  fix i s
  assume i: "1 \<le> i" "i < length ex"
    and J: "filled (length (states h)) (length ex) i s \<and> recurrence h ex i s
            \<and> finite_below (length (states h)) i s"
  obtain tr bp where s: "s = (tr, bp)" by (cases s)
  from ws have tps: "map length (transition_prob h) = replicate (length (states h)) (length (states h))"
    and eps: "map length (emission_prob h) = replicate (length (states h)) (length (emissions h))"
    by (simp_all add: well_shaped_def shape_def)
  from replicate_rows(1) [OF eps] have lep: "length (emission_prob h) = length (states h)" .
  from J s have l: "length tr = length (states h)" "length bp = length (states h)"
    using filled_lengths by auto
  from i have pos: "0 < i" by simp
  from ids i have w: "ex ! i < length (emissions h)" by simp
  from J have f: "filled (length (states h)) (length ex) i s" and r: "recurrence h ex i s"
    and fb: "finite_below (length (states h)) i s"
    by simp_all
  from viterbi_column_next [OF S pos l] fast_viterbi_column_next [OF tps lep l(1) S]
    filled_next_column [OF f pos i(2) S] recurrence_next_column [OF f r pos i(2)]
    finite_below_next_column [OF f fb pos i(2) S tp tps ep eps w]
  show "viterbi_column h ex i s = Inr (next_column h ex i s)
        \<and> fast_viterbi_column h ex i s = Inr (next_column h ex i s)
        \<and> (filled (length (states h)) (length ex) (Suc i) (next_column h ex i s)
           \<and> recurrence h ex (Suc i) (next_column h ex i s)
           \<and> finite_below (length (states h)) (Suc i) (next_column h ex i s))"
    by (simp add: s)
qed

text \<open>
  The tables of a trained model obey the Viterbi recurrence, and every back pointer is the
  lowest source state among those whose candidate is maximal.
\<close>

lemma viterbi_recurrence:
  assumes tr: "train (HMM_init vocab sts) data = Inr h" and ex: "ex \<noteq> []"
  shows "\<exists>ids trellis back_pointers.
           encode_sentence h ex = Inr ids
           \<and> viterbi_fill h ids = Inr (trellis, back_pointers)
           \<and> column trellis 0 = map2 fadd (init_prob h ! 0) (column (emission_prob h) (ids ! 0))
           \<and> (\<forall>i j. 0 < i \<and> i < length ex \<and> j < length sts \<longrightarrow>
                 (let c = candidates h ids trellis i j; k = first_max c
                  in trellis ! j ! i = c ! k \<and> back_pointers ! j ! i = int k \<and> k < length sts
                     \<and> (\<forall>k' < length sts. \<not> fgt (c ! k') (c ! k))
                     \<and> (\<forall>k' < k. fgt (c ! k) (c ! k'))))"
proof -
  note ws = trained_well_shaped [OF tr] and fin = trained_finite_tables [OF tr]
  from encode_sentence_total [OF well_shaped_UNK [OF ws(1)] ex] obtain ids where
    ids: "encode_sentence h ex = Inr ids" "length ids = length ex"
      "\<forall>i \<in> set ids. i < length (emissions h)"
    by blast
  from ids(2) ex have ne: "ids \<noteq> []" by auto
  from ids(3) have rng: "\<forall>i < length ids. ids ! i < length (emissions h)" by simp
  from viterbi_fill_recurrence [OF ws(1,2) ne fin rng] obtain trl bp where
    fill: "viterbi_fill h ids = Inr (trl, bp)"
    and f: "filled (length (states h)) (length ids) (length ids) (trl, bp)"
    and r: "recurrence h ids (length ids) (trl, bp)"
    and fb: "finite_below (length (states h)) (length ids) (trl, bp)"
    by auto
  from ws(1) have tps: "map length (transition_prob h) = replicate (length (states h)) (length (states h))"
    and eps: "map length (emission_prob h) = replicate (length (states h)) (length (emissions h))"
    by (simp_all add: well_shaped_def shape_def)
  have step: "trl ! j ! i = candidates h ids trl i j ! first_max (candidates h ids trl i j)
      \<and> bp ! j ! i = int (first_max (candidates h ids trl i j))
      \<and> first_max (candidates h ids trl i j) < length sts
      \<and> (\<forall>k' < length sts. \<not> fgt (candidates h ids trl i j ! k')
             (candidates h ids trl i j ! first_max (candidates h ids trl i j)))
      \<and> (\<forall>k' < first_max (candidates h ids trl i j).
             fgt (candidates h ids trl i j ! first_max (candidates h ids trl i j))
               (candidates h ids trl i j ! k'))"
    if "0 < i" "i < length ex" "j < length sts" for i j
  proof -
    from that ids(2) ws(3) have i: "i < length ids" and j: "j < length (states h)" by simp_all
    from fb that(1) i have prev: "\<forall>k < length (states h). is_fin (trl ! k ! (i - 1))"
      by (simp add: finite_below_def)
    from rng i have w: "ids ! i < length (emissions h)" by simp
    from candidates_finite [OF fin(3) tps fin(2) eps w j prev]
    have all: "list_all is_fin (candidates h ids trl i j)" .
    have len: "length (candidates h ids trl i j) = length sts"
      by (simp add: candidates_length ws(3))
    with ws(2,3) have ne: "candidates h ids trl i j \<noteq> []" by auto
    from r that(1) i j have
      "trl ! j ! i = candidates h ids trl i j ! first_max (candidates h ids trl i j)
       \<and> bp ! j ! i = int (first_max (candidates h ids trl i j))"
      by (simp add: recurrence_def)
    with first_max_tie_break [OF all ne] first_max_bound [OF ne] len show ?thesis
      by simp
  qed
  from r have "column trl 0 = map2 fadd (init_prob h ! 0) (column (emission_prob h) (ids ! 0))"
    by (simp add: recurrence_def)
  with ids(1) fill step show ?thesis
    by (intro exI [of _ ids] exI [of _ trl] exI [of _ bp]) (simp add: Let_def)
qed

subsection \<open>The decoders on trained models\<close>

lemmas run_decode =
  viterbi_decode_def fast_viterbi_decode_def greedy_decode_def encode_sentence_def
  data2i_words_def first_first_def encode_word_def w2i_def dict_get_def enumerate_dict_def
  UNK_def list_get_def np_index_def viterbi_fill_def fast_viterbi_fill_def viterbi_start_def
  np_full_def set_column_def column_def extract_output_def best_path_def np_max_def
  np_argmax_def walk_back.simps tag_pairs_def tag_pair_def i2w_def i2s_def Let_def
  viterbi_column_def viterbi_cell_def candidates_def set_cell_def np_get2_def
  fast_viterbi_column_def add_vector_def add_column_vector_def np_transpose_def reduce_axis1_def
  greedy_step_def

text \<open>
  Claim C1. For a model that \<^verbatim>\<open>train\<close> returned and a non-empty sentence, the loop
  version and the vectorised version of Viterbi fill the same trellis and the same
  back-pointer matrix, and \<^verbatim>\<open>fast_viterbi_decode\<close> returns what \<^verbatim>\<open>viterbi_decode\<close>
  returns: the same tagged sentence with the same path log-probability. Neither raises. In
  the common tables every cell of a column \<open>i \<ge> 1\<close> holds the maximum of the candidates
  \<^verbatim>\<open>trellis[k,i-1] + transition_prob[k,j] + emission_prob[j,ex[i]]\<close> and its back pointer
  the lowest source state \<open>k\<close> that attains it: no candidate is greater and every candidate
  of a lower state is strictly less. The equality of the two versions uses no law of
  floating-point addition, only that both add the same three numbers in the same order.
\<close>

theorem fast_viterbi_refines:
  assumes "train (HMM_init vocab sts) data = Inr h" and "ex \<noteq> []"
  shows "fast_viterbi_decode h ex = viterbi_decode h ex
         \<and> (\<exists>ids trellis back_pointers tagged log_prob.
               encode_sentence h ex = Inr ids
               \<and> viterbi_fill h ids = Inr (trellis, back_pointers)
               \<and> fast_viterbi_fill h ids = Inr (trellis, back_pointers)
               \<and> viterbi_decode h ex = Inr (tagged, log_prob)
               \<and> fast_viterbi_decode h ex = Inr (tagged, log_prob)
               \<and> (\<forall>i j. 0 < i \<and> i < length ex \<and> j < length sts \<longrightarrow>
                     (let c = candidates h ids trellis i j; k = first_max c
                      in trellis ! j ! i = c ! k \<and> back_pointers ! j ! i = int k
                         \<and> k < length sts
                         \<and> (\<forall>k' < length sts. \<not> fgt (c ! k') (c ! k))
                         \<and> (\<forall>k' < k. fgt (c ! k) (c ! k')))))"
proof -
  from viterbi_decode_total [OF trained_well_shaped(1,2) [OF assms(1)] assms(2)]
  obtain ids tr bp lp out where
    dec: "encode_sentence h ex = Inr ids" "viterbi_fill h ids = Inr (tr, bp)"
      "fast_viterbi_fill h ids = Inr (tr, bp)"
      "viterbi_decode h ex = Inr (out, lp)" "fast_viterbi_decode h ex = Inr (out, lp)"
    by blast
  from viterbi_recurrence [OF assms] dec(1,2)
  have "\<forall>i j. 0 < i \<and> i < length ex \<and> j < length sts \<longrightarrow>
          (let c = candidates h ids tr i j; k = first_max c
           in tr ! j ! i = c ! k \<and> bp ! j ! i = int k \<and> k < length sts
              \<and> (\<forall>k' < length sts. \<not> fgt (c ! k') (c ! k))
              \<and> (\<forall>k' < k. fgt (c ! k) (c ! k')))"
    by auto
  with dec show ?thesis
    by (intro conjI exI [of _ ids] exI [of _ tr] exI [of _ bp] exI [of _ out] exI [of _ lp])
      simp_all
qed

theorem fast_viterbi_refines_witness:
  "train (HMM_init tiny_vocab tiny_states) tiny_corpus = Inr tiny_model
   \<and> [''the'', ''dog'', ''barks''] \<noteq> []
   \<and> fast_viterbi_decode tiny_model [''the'', ''dog'', ''barks'']
       = viterbi_decode tiny_model [''the'', ''dog'', ''barks'']"
  using fast_viterbi_refines [OF train_tiny, of "[''the'', ''dog'', ''barks'']"] train_tiny
  by simp

text \<open>
  Claim C10. For a trained model and a sentence of length \<open>T \<ge> 1\<close>, path extraction on the
  tables that \<^verbatim>\<open>viterbi_decode\<close> (and \<^verbatim>\<open>fast_viterbi_decode\<close>) has filled succeeds; it reads the back pointers at the
  columns \<open>T - 1, T - 2, \<dots>, 1\<close> in this order and never at column 0; and every state of
  the extracted path is a state id \<open>0 \<le> s < S\<close>, so \<open>-1\<close> is not among them.
\<close>

theorem path_extraction_safe:
  assumes "train (HMM_init vocab sts) data = Inr h" and "ex \<noteq> []"
  shows "\<exists>ids trellis back_pointers log_prob path cols.
           encode_sentence h ex = Inr ids
           \<and> viterbi_fill h ids = Inr (trellis, back_pointers)
           \<and> fast_viterbi_fill h ids = Inr (trellis, back_pointers)
           \<and> best_path trellis back_pointers ids = Inr (log_prob, path, cols)
           \<and> cols = map int (rev [1..<length ex]) \<and> 0 \<notin> set cols
           \<and> length path = length ex
           \<and> (\<forall>s \<in> set path. 0 \<le> s \<and> s < int (length sts))"
proof -
  from viterbi_decode_total [OF trained_well_shaped(1,2) [OF assms(1)] assms(2)]
  obtain ids tr bp lp path where
    "encode_sentence h ex = Inr ids" "viterbi_fill h ids = Inr (tr, bp)"
    "fast_viterbi_fill h ids = Inr (tr, bp)"
    "best_path tr bp ids = Inr (lp, path, map int (rev [1..<length ex]))"
    "length path = length ex" "\<forall>s \<in> set path. 0 \<le> s \<and> s < int (length (states h))"
    by blast
  moreover have "0 \<notin> set (map int (rev [1..<length ex]))" by auto
  ultimately show ?thesis
    using trained_well_shaped(3) [OF assms(1)] by auto
qed

theorem path_extraction_safe_witness:
  "train (HMM_init tiny_vocab tiny_states) tiny_corpus = Inr tiny_model
   \<and> [''the'', ''dog'', ''barks''] \<noteq> []
   \<and> (\<exists>ids trellis back_pointers log_prob path.
         encode_sentence tiny_model [''the'', ''dog'', ''barks''] = Inr ids
         \<and> viterbi_fill tiny_model ids = Inr (trellis, back_pointers)
         \<and> best_path trellis back_pointers ids = Inr (log_prob, path, [2, 1])
         \<and> length path = 3 \<and> list_all (\<lambda>s. 0 \<le> s \<and> s < 3) path)"
proof -
  have "map int (rev [1..<length [''the'', ''dog'', ''barks'']]) = [2, 1]"
    by (simp add: upt_rec)
  with path_extraction_safe [OF train_tiny, of "[''the'', ''dog'', ''barks'']"] train_tiny
  show ?thesis
    by (simp add: tiny_states_def list_all_iff numeral_3_eq_3) blast
qed

text \<open>
  Claim C2 does not hold for words outside the vocabulary: the decoders build the output from
  the encoded sentence, so such a word comes back as the sentinel string. Decoding the
  one-word sentence \<open>cat\<close> with the model of the worked example gives the word
  \<open><UNK>\<close>, not \<open>cat\<close>.
\<close>

theorem decode_unknown_word_counterexample:
  "train (HMM_init tiny_vocab tiny_states) tiny_corpus = Inr tiny_model
   \<and> viterbi_decode tiny_model [''cat'']
       = Inr ([(''<UNK>'', ''DET'')], Fin (log 2 (1 / 2) + log 2 (1 / 5)))
   \<and> map fst [(''<UNK>'', ''DET'')] \<noteq> [''cat'']"
  using train_tiny by (simp add: run_decode tiny_model_def)

text \<open>
  Claim C2, amended. For a trained model and a non-empty sentence, each of the three decoders
  returns a scored output with one pair per input word, in order, whose word is the input
  word when that word is in the vocabulary and the sentinel string \<open><UNK>\<close> otherwise.
\<close>

theorem decoded_words:
  assumes "train (HMM_init vocab sts) data = Inr h" and "ex \<noteq> []"
  shows "\<forall>decode \<in> {greedy_decode, viterbi_decode, fast_viterbi_decode}.
           \<exists>tagged log_prob. decode h ex = Inr (tagged, log_prob)
             \<and> map fst tagged = map (\<lambda>w. if w \<in> set vocab then w else UNK) ex"
proof -
  note ws = trained_well_shaped [OF assms(1)]
  have eq: "(\<lambda>w. if w \<in> set (emissions h) then w else UNK)
            = (\<lambda>w. if w \<in> set vocab then w else UNK)"
    by (auto simp: ws(4))
  from viterbi_decode_total [OF ws(1,2) assms(2)] greedy_decode_total [OF ws(1,2) assms(2)]
  show ?thesis
    unfolding eq by blast
qed

theorem decoded_words_witness:
  "train (HMM_init tiny_vocab tiny_states) tiny_corpus = Inr tiny_model
   \<and> [''the'', ''cat''] \<noteq> []
   \<and> (\<exists>tagged log_prob. greedy_decode tiny_model [''the'', ''cat''] = Inr (tagged, log_prob)
         \<and> map fst tagged = [''the'', ''<UNK>''])
   \<and> (\<exists>tagged log_prob. viterbi_decode tiny_model [''the'', ''cat''] = Inr (tagged, log_prob)
         \<and> map fst tagged = [''the'', ''<UNK>''])
   \<and> (\<exists>tagged log_prob. fast_viterbi_decode tiny_model [''the'', ''cat''] = Inr (tagged, log_prob)
         \<and> map fst tagged = [''the'', ''<UNK>''])"
  using decoded_words [OF train_tiny, of "[''the'', ''cat'']"] train_tiny
  by (simp add: tiny_vocab_def UNK_def)

subsection \<open>The hard-EM loop\<close>

text \<open>
  The loop body ends with the retraining step, whatever \<^verbatim>\<open>delta\<close> the evaluation has
  just produced, and only then is \<^verbatim>\<open>delta > PERPLEXITY_TH\<close> tested again. Since
  \<^verbatim>\<open>delta\<close> starts as \<open>+\<infinity>\<close>, the body runs at least once; so every run that ends has
  as its last three steps a decoding, an evaluation whose \<^verbatim>\<open>delta\<close> is not above the
  threshold, and one more retraining.
\<close>

lemma em_body_trace:
  assumes "em_body list_set vocab train_input test_input st = Inr st1"
  shows "\<exists>p. trace st1 = trace st @ [Decoded, Evaluated p (delta st1), Retrained]"
  using assms by (auto simp: em_body_def Let_def split: sum.splits)

lemma em_loop_last_retrain:
  assumes "em_loop fuel list_set vocab train_input test_input st = Inr (Some st')"
    and "fgt (delta st) PERPLEXITY_TH"
  shows "\<exists>pre p. trace st' = pre @ [Decoded, Evaluated p (delta st'), Retrained]
           \<and> \<not> fgt (delta st') PERPLEXITY_TH"
  using assms
proof (induction fuel arbitrary: st)
  case 0
  then show ?case by (simp add: em_loop.simps)
next
  case (Suc fuel)
  from Suc.prems obtain st1 where
    body: "em_body list_set vocab train_input test_input st = Inr st1"
    and rest: "em_loop fuel list_set vocab train_input test_input st1 = Inr (Some st')"
    by (subst (asm) em_loop.simps) (auto split: sum.splits)
  show ?case
  proof (cases "fgt (delta st1) PERPLEXITY_TH")
    case True
    with rest show ?thesis by (rule Suc.IH)
  next
    case False
    with rest have "st' = st1"
      by (subst (asm) em_loop.simps) simp
    with em_body_trace [OF body] False show ?thesis by auto
  qed
qed

lemma hard_em_last_retrain:
  assumes "hard_em fuel list_set vocab tags mini_train_set train_input test_input = Inr (Some st')"
  shows "\<exists>pre p. trace st' = pre @ [Decoded, Evaluated p (delta st'), Retrained]
           \<and> \<not> fgt (delta st') PERPLEXITY_TH"
proof -
  from assms obtain hmm0 where
    "em_loop fuel list_set vocab train_input test_input
       \<lparr> old_perplexity = PInf, delta = PInf, hmm_obj = hmm0, trace = [] \<rparr> = Inr (Some st')"
    by (auto simp: hard_em_def split: sum.splits)
  then show ?thesis
    by (rule em_loop_last_retrain) (simp add: PERPLEXITY_TH_def)
qed

text \<open>
  Claim C9 says that once \<^verbatim>\<open>delta\<close> is at most the threshold no further decoding or
  retraining happens. On the vocabulary \<open>a\<close>, the tag \<open>X\<close>, the seed set of two sentences
  \<open>a/X\<close> and the pools \<open>[[a]]\<close> and \<open>[[a]]\<close> the loop ends after two iterations: the first
  has \<^verbatim>\<open>delta\<close> \<open>= +\<infinity>\<close> and retrains, the second evaluates the same perplexity, so
  \<^verbatim>\<open>delta\<close> \<open>= 0\<close>, and retrains all the same before the loop test stops it.
\<close>

theorem hard_em_retrains_after_convergence:
  "hard_em 2 remdups [''a''] [''X''] [[(''a'', ''X'')], [(''a'', ''X'')]] [[''a'']] [[''a'']]
   = Inr (Some
       \<lparr> old_perplexity = Fin (2 powr - log 2 (3 / 4)), delta = Fin 0,
         hmm_obj =
           \<lparr> emissions = [''a'', ''<UNK>''], states = [''X''],
             init_prob = [[Fin 0]],
             emission_prob = [[Fin (log 2 (3 / 4)), Fin (log 2 (1 / 4))]],
             transition_prob = [[Fin 0]] \<rparr>,
         trace =
           [Decoded, Evaluated (Fin (2 powr - log 2 (3 / 4))) PInf, Retrained,
            Decoded, Evaluated (Fin (2 powr - log 2 (3 / 4))) (Fin 0), Retrained] \<rparr>)"
  by (simp add: hard_em_def run_train run_decode em_loop.simps em_body_def get_perplexity_def
      PERPLEXITY_TH_def fsub_def numeral_2_eq_2)

end
